theory Spec2Isabelle
  imports Main "HOL-Library.AList" "HOL-Library.Char_ord" "HOL-Library.List_Lexorder"
    "HOL-Library.Multiset"
begin

section \<open>Cloudflare DNS record mapper: hierarchy construction and rendering\<close>

text \<open>
  A shallow embedding of the core of \<^verbatim>\<open>cloudflare_dns_mapper.py\<close>: the methods
  \<^verbatim>\<open>build_hierarchy\<close>, \<^verbatim>\<open>find_root_records\<close>, \<^verbatim>\<open>write_hierarchy\<close> and the part
  of \<^verbatim>\<open>generate_mindmap\<close> that runs after the records have been fetched (re-rooting
  and the render loop). The HTTP client, the optional TXT filter and the final file write
  are input and output around that core and are not modelled.

  Python strings are modelled as \<^typ>\<open>string\<close> over ASCII: DNS names and record
  contents are ASCII. Python dictionaries keep insertion order, so they are association
  lists updated with \<^const>\<open>AList.update\<close> (an existing key keeps its place, a new
  key goes to the end). Python sets are HOL sets. \<^verbatim>\<open>sorted\<close> on strings compares
  code points lexicographically, which is the order of \<^theory_text>\<open>List_Lexorder\<close> over
  \<^theory_text>\<open>Char_ord\<close>.
\<close>

subsection \<open>String primitives\<close>

text \<open>\<^verbatim>\<open>str.lower()\<close> on ASCII.\<close>

definition lower_char :: "char \<Rightarrow> char" where
  "lower_char c =
     (if CHR ''A'' \<le> c \<and> c \<le> CHR ''Z'' then char_of (of_char c + (32::nat)) else c)"

definition lower :: "string \<Rightarrow> string" where
  "lower s = map lower_char s"

text \<open>The ASCII characters for which \<^verbatim>\<open>str.isspace()\<close> holds: tab, line feed,
  vertical tab, form feed, carriage return, the four separators 0x1C to 0x1F, and space.\<close>

definition is_space :: "char \<Rightarrow> bool" where
  "is_space c = (c \<in> set [CHR 0x09, CHR 0x0A, CHR 0x0B, CHR 0x0C, CHR 0x0D,
                            CHR 0x1C, CHR 0x1D, CHR 0x1E, CHR 0x1F, CHR '' ''])"

text \<open>\<^verbatim>\<open>str.strip()\<close>: remove leading and trailing whitespace.\<close>

definition strip :: "string \<Rightarrow> string" where
  "strip s = rev (dropWhile is_space (rev (dropWhile is_space s)))"

text \<open>\<^verbatim>\<open>str.rstrip('.')\<close>: remove every trailing dot.\<close>

definition rstrip_dots :: "string \<Rightarrow> string" where
  "rstrip_dots s = rev (dropWhile (\<lambda>c. c = CHR ''.'') (rev s))"

text \<open>\<^verbatim>\<open>str.split()\<close> without arguments: the maximal runs of non-whitespace
  characters. The first argument is the token being read, reversed.\<close>

fun split_from :: "string \<Rightarrow> string \<Rightarrow> string list" where
  "split_from cur [] = (if cur = [] then [] else [rev cur])"
| "split_from cur (c # cs) =
     (if is_space c then (if cur = [] then split_from [] cs else rev cur # split_from [] cs)
      else split_from (c # cur) cs)"

definition split :: "string \<Rightarrow> string list" where
  "split s = split_from [] s"

subsection \<open>Records and normalization\<close>

text \<open>A DNS record as the API returns it. \<^verbatim>\<open>name\<close> and \<^verbatim>\<open>type\<close> are read with
  \<^verbatim>\<open>record[...]\<close>; \<^verbatim>\<open>content\<close> is read with \<^verbatim>\<open>record.get("content", "")\<close>, so
  the key may be missing. The three values are strings, as the input interface has them.\<close>

record dns_record =
  rname :: string
  rtype :: string
  rcontent :: "string option"

definition get_content :: "dns_record \<Rightarrow> string" where
  "get_content r = (case rcontent r of None \<Rightarrow> [] | Some c \<Rightarrow> c)"

text \<open>\<^verbatim>\<open>.lower().strip().rstrip('.')\<close>, as in \<^verbatim>\<open>build_hierarchy\<close> and in the
  re-rooting loop of \<^verbatim>\<open>generate_mindmap\<close>.\<close>

definition normalize :: "string \<Rightarrow> string" where
  "normalize s = rstrip_dots (strip (lower s))"

text \<open>\<^verbatim>\<open>.lower().rstrip('.')\<close>, as in \<^verbatim>\<open>find_root_records\<close> (there is no
  \<^verbatim>\<open>strip()\<close> there).\<close>

definition root_name :: "string \<Rightarrow> string" where
  "root_name s = rstrip_dots (lower s)"

type_synonym record_map = "(string \<times> dns_record) list"
type_synonym children_map = "(string \<times> string list) list"

definition keys :: "('k \<times> 'v) list \<Rightarrow> 'k set" where
  "keys d = set (map fst d)"

subsection \<open>\<^verbatim>\<open>build_hierarchy\<close>\<close>

text \<open>The first loop: \<^verbatim>\<open>record_map[name] = record\<close>.\<close>

definition build_record_map :: "dns_record list \<Rightarrow> record_map" where
  "build_record_map all_records =
     fold (\<lambda>r record_map. AList.update (normalize (rname r)) r record_map) all_records []"

text \<open>The four lines that every branch of the second loop repeats:
  \<^verbatim>\<open>if parent not in children_map: children_map[parent] = []\<close> and then
  \<^verbatim>\<open>if name not in children_map[parent]: children_map[parent].append(name)\<close>.
  With a new key the list is created empty and the name appended at once.\<close>

definition add_child :: "string \<Rightarrow> string \<Rightarrow> children_map \<Rightarrow> children_map" where
  "add_child parent name children_map =
     (case map_of children_map parent of
        None \<Rightarrow> AList.update parent [name] children_map
      | Some children \<Rightarrow>
          if name \<in> set children then children_map
          else AList.update parent (children @ [name]) children_map)"

text \<open>The body of the second loop of \<^verbatim>\<open>build_hierarchy\<close>.\<close>

definition build_step :: "record_map \<Rightarrow> dns_record \<Rightarrow> children_map \<Rightarrow> children_map" where
  "build_step record_map r children_map =
     (let name = normalize (rname r);
          content = normalize (get_content r);
          record_type = rtype r
      in if content = [] then children_map
         else if record_type \<in> set [''CNAME'', ''ALIAS'', ''DNAME''] then
           (if content \<in> keys record_map then add_child content name children_map
            else children_map)
         else if record_type = ''MX'' then
           (let parts = split content
            in if 2 \<le> length parts then
                 (let mx_target = rstrip_dots (strip (parts ! 1))
                  in if mx_target \<in> keys record_map
                     then add_child mx_target name children_map else children_map)
               else children_map)
         else if record_type = ''SRV'' then
           (let parts = split content
            in if 4 \<le> length parts then
                 (let srv_target = rstrip_dots (strip (parts ! 3))
                  in if srv_target \<in> keys record_map
                     then add_child srv_target name children_map else children_map)
               else children_map)
         else children_map)"

definition build_hierarchy :: "dns_record list \<Rightarrow> children_map \<times> record_map" where
  "build_hierarchy all_records =
     (let record_map = build_record_map all_records
      in (fold (build_step record_map) all_records [], record_map))"

subsection \<open>\<^verbatim>\<open>find_root_records\<close>\<close>

definition all_children :: "children_map \<Rightarrow> string set" where
  "all_children children_map =
     fold (\<lambda>children acc. acc \<union> set children) (map snd children_map) {}"

definition find_root_records :: "dns_record list \<Rightarrow> children_map \<Rightarrow> string list" where
  "find_root_records all_records children_map =
     sorted_list_of_set
       (fold (\<lambda>r roots. if root_name (rname r) \<notin> all_children children_map
                         then insert (root_name (rname r)) roots else roots)
             all_records {})"

subsection \<open>\<^verbatim>\<open>write_hierarchy\<close>\<close>

text \<open>The line of a node: two spaces per level, then \<^verbatim>\<open>- \<close> and the name.\<close>

definition line :: "nat \<Rightarrow> string \<Rightarrow> string" where
  "line level name = concat (replicate level ''  '') @ ''- '' @ name"

text \<open>
  The state of the traversal is the pair of the two mutable objects that
  \<^verbatim>\<open>write_hierarchy\<close> shares with its recursive calls: the \<^verbatim>\<open>output\<close> list and the
  \<^verbatim>\<open>visited\<close> set. \<^verbatim>\<open>write_children\<close> is the \<^verbatim>\<open>for child in sorted(...)\<close>
  loop, which calls \<^verbatim>\<open>write_hierarchy\<close> on the state the previous child left. The
  parameter \<^verbatim>\<open>record_map\<close> of the source is never read and is left out.
\<close>

function write_hierarchy ::
    "string \<Rightarrow> children_map \<Rightarrow> nat \<Rightarrow> string list \<times> string set \<Rightarrow> string list \<times> string set"
  and write_children ::
    "string list \<Rightarrow> children_map \<Rightarrow> nat \<Rightarrow> string list \<times> string set \<Rightarrow> string list \<times> string set"
where
  "write_hierarchy name children_map level (output, visited) =
     (if name \<in> visited then (output, visited)
      else case map_of children_map name of
             None \<Rightarrow> (output @ [line level name], insert name visited)
           | Some children \<Rightarrow>
               write_children (sort children) children_map (level + 1)
                 (output @ [line level name], insert name visited))"
| "write_children [] children_map level st = st"
| "write_children (child # rest) children_map level st =
     write_children rest children_map level (write_hierarchy child children_map level st)"
  by pat_completeness auto

text \<open>The traversal only ever adds to the visited set. This is what makes the nested
  call in the loop terminate, so it is proved on the domain of the function first.\<close>

lemma visited_grows_dom:
  "write_hierarchy_write_children_dom (Inl (name, cm, level, st)) \<Longrightarrow>
     snd st \<subseteq> snd (write_hierarchy name cm level st)"
  "write_hierarchy_write_children_dom (Inr (cs, cm, level, st)) \<Longrightarrow>
     snd st \<subseteq> snd (write_children cs cm level st)"
proof (induction name cm level st and cs cm level st rule: write_hierarchy_write_children.pinduct)
  case (1 name children_map level out visited)
  then show ?case
    by (auto simp: write_hierarchy.psimps split: option.splits)
next
  case (2 children_map level st)
  then show ?case by (simp add: write_children.psimps)
next
  case (3 child rest children_map level st)
  then show ?case by (auto simp: write_children.psimps)
qed

lemma write_hierarchy_total: "\<forall>x. write_hierarchy_write_children_dom x"
proof (relation "inv_image (less_than <*lex*> less_than)
    (\<lambda>x. case x of
       Inl (name, cm, level, st) \<Rightarrow> (card (keys cm - snd st), 0)
     | Inr (cs, cm, level, st) \<Rightarrow> (card (keys cm - snd st), Suc (length cs)))", goal_cases)
  case 1
  show ?case by (intro wf_inv_image wf_lex_prod wf_less_than)
next
  case (2 name children_map level out visited children)
  have "name \<in> keys children_map"
    using 2(2) by (auto simp: keys_def dest: map_of_SomeD intro: rev_image_eqI)
  then have "keys children_map - insert name visited \<subset> keys children_map - visited"
    using 2(1) by auto
  moreover have "finite (keys children_map - visited)"
    by (simp add: keys_def)
  ultimately have "card (keys children_map - insert name visited) < card (keys children_map - visited)"
    by (rule psubset_card_mono[rotated])
  then show ?case by simp
next
  case (3 child rest children_map level st)
  then show ?case by simp
next
  case (4 child rest children_map level st)
  have "snd st \<subseteq> snd (write_hierarchy child children_map level st)"
    using 4 by (rule visited_grows_dom(1))
  then have "keys children_map - snd (write_hierarchy child children_map level st)
               \<subseteq> keys children_map - snd st"
    by auto
  moreover have "finite (keys children_map - snd st)"
    by (simp add: keys_def)
  ultimately have "card (keys children_map - snd (write_hierarchy child children_map level st))
      \<le> card (keys children_map - snd st)"
    by (rule card_mono[rotated])
  then show ?case by auto
qed

termination write_hierarchy
  by (rule write_hierarchy_total)

subsection \<open>\<^verbatim>\<open>generate_mindmap\<close>: re-rooting and the render loop\<close>

text \<open>The inner loop of the re-rooting pass: \<^verbatim>\<open>is_root\<close> stays true unless
  \<^verbatim>\<open>name\<close> is in the child list of some parent.\<close>

definition is_root :: "children_map \<Rightarrow> string \<Rightarrow> bool" where
  "is_root children_map name =
     (\<not> list_ex (\<lambda>(parent, children). name \<in> set children) children_map)"

type_synonym ip_parent_map = "(string \<times> string list) list"

text \<open>\<^verbatim>\<open>if content not in ip_parent_map: ip_parent_map[content] = []\<close> and then
  \<^verbatim>\<open>ip_parent_map[content].append(name)\<close>, with no test for a name that is already there.\<close>

definition ip_append :: "string \<Rightarrow> string \<Rightarrow> ip_parent_map \<Rightarrow> ip_parent_map" where
  "ip_append content name ip_parent_map =
     (case map_of ip_parent_map content of
        None \<Rightarrow> AList.update content [name] ip_parent_map
      | Some domains \<Rightarrow> AList.update content (domains @ [name]) ip_parent_map)"

text \<open>The body of the re-rooting loop. The state is \<^verbatim>\<open>ip_parent_map\<close> and
  \<^verbatim>\<open>domains_with_ip_parents\<close>.\<close>

definition reroot_step ::
    "children_map \<Rightarrow> dns_record \<Rightarrow> ip_parent_map \<times> string set \<Rightarrow> ip_parent_map \<times> string set" where
  "reroot_step children_map r st =
     (let name = normalize (rname r);
          content = normalize (get_content r);
          record_type = rtype r
      in if is_root children_map name \<and> content \<noteq> [] \<and>
            record_type \<in> set [''A'', ''AAAA'', ''CNAME'', ''ALIAS'', ''DNAME'']
         then (ip_append content name (fst st), insert name (snd st))
         else st)"

definition reroot :: "dns_record list \<Rightarrow> children_map \<Rightarrow> ip_parent_map \<times> string set" where
  "reroot all_records children_map = fold (reroot_step children_map) all_records ([], {})"

text \<open>The root list after \<^verbatim>\<open>roots = sorted(set(roots))\<close>.\<close>

definition final_roots ::
    "dns_record list \<Rightarrow> children_map \<Rightarrow> ip_parent_map \<times> string set \<Rightarrow> string list" where
  "final_roots all_records children_map rr =
     (let roots = find_root_records all_records children_map;
          roots = filter (\<lambda>r. r \<notin> snd rr) roots;
          roots = roots @ sort (map fst (fst rr))
      in sorted_list_of_set (set roots))"

text \<open>The loop over the domains of a synthetic root: every call of
  \<^verbatim>\<open>write_hierarchy\<close> is made without \<^verbatim>\<open>visited\<close>, so it starts from an empty
  set.\<close>

definition write_domains :: "string list \<Rightarrow> children_map \<Rightarrow> string list \<Rightarrow> string list" where
  "write_domains domains children_map output_lines =
     fold (\<lambda>domain out. fst (write_hierarchy domain children_map 1 (out, {})))
       domains output_lines"

text \<open>The body of the loop \<^verbatim>\<open>for root in roots\<close>.\<close>

definition write_root ::
    "children_map \<Rightarrow> ip_parent_map \<Rightarrow> string \<Rightarrow> string list \<Rightarrow> string list" where
  "write_root children_map ip_parent_map root output_lines =
     (case map_of ip_parent_map root of
        Some domains \<Rightarrow>
          write_domains (sort domains) children_map (output_lines @ [''- '' @ root])
      | None \<Rightarrow> fst (write_hierarchy root children_map 0 (output_lines, {})))"

text \<open>\<^verbatim>\<open>generate_mindmap\<close> from the point where \<^verbatim>\<open>all_records\<close> is complete; the
  result is \<^verbatim>\<open>output_lines\<close>, which the source joins with newlines and writes out.\<close>

definition generate_mindmap :: "dns_record list \<Rightarrow> string list" where
  "generate_mindmap all_records =
     (let children_map = fst (build_hierarchy all_records);
          rr = reroot all_records children_map;
          roots = final_roots all_records children_map rr
      in fold (write_root children_map (fst rr)) roots [''# DNS Record Hierarchy'', ''''])"

section \<open>Vocabulary of the properties\<close>

text \<open>The depth of an output line: half the number of its leading spaces.\<close>

definition line_level :: "string \<Rightarrow> nat" where
  "line_level s = length (takeWhile (\<lambda>c. c = CHR '' '') s) div 2"

text \<open>The name on an output line: what follows the indent and the two characters of the bullet.\<close>

definition line_name :: "string \<Rightarrow> string" where
  "line_name s = drop (2 * line_level s + 2) s"

text \<open>In a list of (depth, name) pairs in output order, the next entry at depth d below the same parent: the first later entry that is not deeper than d, when its depth is d.\<close>

fun next_sibling :: "nat \<Rightarrow> (nat \<times> string) list \<Rightarrow> string option" where
  "next_sibling d [] = None"
| "next_sibling d ((d', n) # rest) =
     (if d < d' then next_sibling d rest else if d' = d then Some n else None)"

text \<open>Every entry is at most its next sibling, so the children of each node, and the roots, appear in ascending order.\<close>

fun siblings_sorted :: "(nat \<times> string) list \<Rightarrow> bool" where
  "siblings_sorted [] = True"
| "siblings_sorted ((d, n) # rest) =
     ((case next_sibling d rest of None \<Rightarrow> True | Some m \<Rightarrow> n \<le> m) \<and> siblings_sorted rest)"

text \<open>The output lines of a list of (depth, name) pairs.\<close>

definition fmt :: "(nat \<times> string) list \<Rightarrow> string list" where
  "fmt tr = map (\<lambda>(d, n). line d n) tr"

text \<open>A traversal step from state st to state st' that appends the lines of tr and marks exactly the names of tr, all of them new and no name twice.\<close>

definition emits :: "string list \<times> string set \<Rightarrow> (nat \<times> string) list \<Rightarrow> string list \<times> string set \<Rightarrow> bool" where
  "emits st tr st' \<longleftrightarrow>
     st' = (fst st @ fmt tr, snd st \<union> snd ` set tr) \<and> distinct (map snd tr) \<and>
     snd ` set tr \<inter> snd st = {}"

text \<open>The shape of what a loop over the sorted list cs writes at a given depth: nothing above that depth, only names of cs at that depth, and a first entry at that depth.\<close>

definition forest :: "nat \<Rightarrow> string list \<Rightarrow> (nat \<times> string) list \<Rightarrow> bool" where
  "forest level cs tr \<longleftrightarrow>
     (\<forall>e\<in>set tr. level \<le> fst e) \<and> (\<forall>n. (level, n) \<in> set tr \<longrightarrow> n \<in> set cs) \<and>
     (tr \<noteq> [] \<longrightarrow> fst (hd tr) = level) \<and> siblings_sorted tr"

text \<open>The parent-child pairs of a children map.\<close>

definition edges :: "children_map \<Rightarrow> (string \<times> string) set" where
  "edges cm = {(p, c). \<exists>cs. map_of cm p = Some cs \<and> c \<in> set cs}"

text \<open>The edge that one record contributes in build_hierarchy, given the set K of keys of the record map.\<close>

definition edge_of :: "string set \<Rightarrow> dns_record \<Rightarrow> (string \<times> string) option" where
  "edge_of K r =
     (let name = normalize (rname r); content = normalize (get_content r)
      in if content = [] then None
         else if rtype r \<in> {''CNAME'', ''ALIAS'', ''DNAME''} then
           (if content \<in> K then Some (content, name) else None)
         else if rtype r = ''MX'' then
           (if 2 \<le> length (split content) \<and> rstrip_dots (strip (split content ! 1)) \<in> K
            then Some (rstrip_dots (strip (split content ! 1)), name) else None)
         else if rtype r = ''SRV'' then
           (if 4 \<le> length (split content) \<and> rstrip_dots (strip (split content ! 3)) \<in> K
            then Some (rstrip_dots (strip (split content ! 3)), name) else None)
         else None)"

text \<open>No key twice and no child twice under a key.\<close>

definition children_distinct :: "children_map \<Rightarrow> bool" where
  "children_distinct cm \<longleftrightarrow> distinct (map fst cm) \<and> list_all (\<lambda>(p, cs). distinct cs) cm"

text \<open>Relative to a visited set vis, the set vis' is closed: every name of vis' that is not in vis has all its children in vis'.\<close>

definition closed_new :: "children_map \<Rightarrow> string set \<Rightarrow> string set \<Rightarrow> bool" where
  "closed_new cm vis vis' \<longleftrightarrow> (\<forall>p\<in>vis' - vis. \<forall>cs. map_of cm p = Some cs \<longrightarrow> set cs \<subseteq> vis')"

text \<open>The test of the re-rooting loop: the record's name is a root, its content is not empty and its type is one of the five re-rooted types.\<close>

definition rerootable :: "children_map \<Rightarrow> dns_record \<Rightarrow> bool" where
  "rerootable cm r \<longleftrightarrow>
     is_root cm (normalize (rname r)) \<and> normalize (get_content r) \<noteq> [] \<and>
     rtype r \<in> set [''A'', ''AAAA'', ''CNAME'', ''ALIAS'', ''DNAME'']"

text \<open>The names that the re-rooting loop appends under the key c, in the order of the records.\<close>

definition domains_of :: "children_map \<Rightarrow> dns_record list \<Rightarrow> string \<Rightarrow> string list" where
  "domains_of cm recs c =
     map (\<lambda>r. normalize (rname r))
       (filter (\<lambda>r. rerootable cm r \<and> normalize (get_content r) = c) recs)"

text \<open>Follows the words of the specification, not the source: ``strip a single trailing dot''.\<close>

definition strip_one_dot :: "string \<Rightarrow> string" where
  "strip_one_dot s = (if s \<noteq> [] \<and> last s = CHR ''.'' then butlast s else s)"

text \<open>Follows the words of the specification, not the source: lowercase, strip leading and trailing whitespace, strip a single trailing dot. It is compared with normalize, which is the source's.\<close>

definition spec_normalize :: "string \<Rightarrow> string" where
  "spec_normalize s = strip_one_dot (strip (lower s))"

text \<open>What build_hierarchy and the re-rooting loop read of a record: the normalized name, the type and the normalized content.\<close>

definition rkey :: "dns_record \<Rightarrow> string \<times> string \<times> string" where
  "rkey r = (normalize (rname r), rtype r, normalize (get_content r))"


text \<open>A string without surrounding whitespace: empty, or neither its first nor its last character is whitespace.\<close>

definition unpadded :: "string \<Rightarrow> bool" where
  "unpadded s = (s = [] \<or> (\<not> is_space (hd s) \<and> \<not> is_space (last s)))"

section \<open>Lemmas\<close>

subsection \<open>Output lines and the order of siblings\<close>

lemma indent_replicate: "concat (replicate level ''  '') = replicate (2 * level) CHR '' ''"
  by (induction level) simp_all

lemma line_level_line [simp]: "line_level (line level name) = level"
  by (simp add: line_level_def line_def indent_replicate takeWhile_append)

lemma line_name_line [simp]: "line_name (line level name) = name"
  unfolding line_name_def line_level_line by (simp add: line_def indent_replicate)

lemma line_inject: "line l n = line l' n' \<longleftrightarrow> l = l' \<and> n = n'"
  by (metis line_level_line line_name_line)

lemma line_0: "line 0 n = ''- '' @ n" by (simp add: line_def)

lemma next_sibling_deeper:
  "\<forall>e\<in>set xs. d < fst e \<Longrightarrow> next_sibling d (xs @ ys) = next_sibling d ys"
  by (induction xs) auto

lemma next_sibling_append:
  "ys = [] \<or> fst (hd ys) < d \<Longrightarrow> next_sibling d (xs @ ys) = next_sibling d xs"
proof (induction xs)
  case Nil
  then show ?case by (cases ys) auto
next
  case (Cons x xs)
  then show ?case by (cases x) auto
qed

lemma siblings_sorted_append:
  "\<forall>e\<in>set xs. l < fst e \<Longrightarrow> ys = [] \<or> fst (hd ys) \<le> l \<Longrightarrow>
   siblings_sorted xs \<Longrightarrow> siblings_sorted ys \<Longrightarrow> siblings_sorted (xs @ ys)"
proof (induction xs)
  case Nil
  then show ?case by simp
next
  case (Cons x xs)
  obtain d n where x: "x = (d, n)" by (cases x)
  have "ys = [] \<or> fst (hd ys) < d" using Cons.prems(1,2) x by auto
  then have "next_sibling d (xs @ ys) = next_sibling d xs" by (rule next_sibling_append)
  then show ?case using Cons x by simp
qed

lemma all_children_eq: "all_children cm = \<Union> (set ` snd ` set cm)"
proof -
  have "fold (\<lambda>children acc. acc \<union> set children) xs A = A \<union> \<Union> (set ` set xs)" for xs :: "string list list" and A
    by (induction xs arbitrary: A) auto
  then show ?thesis by (simp add: all_children_def)
qed


lemma fmt_simps [simp]: "fmt [] = []" "fmt ((d, n) # tr) = line d n # fmt tr"
  "fmt (xs @ ys) = fmt xs @ fmt ys"
  by (simp_all add: fmt_def)

lemma emits_Nil: "emits st [] st"
  by (simp add: emits_def)

lemma emits_append: "emits st tr1 st1 \<Longrightarrow> emits st1 tr2 st2 \<Longrightarrow> emits st (tr1 @ tr2) st2"
  by (auto simp: emits_def)

lemma emits_Cons:
  "n \<notin> snd st \<Longrightarrow> emits (fst st @ [line d n], insert n (snd st)) tr st' \<Longrightarrow> emits st ((d, n) # tr) st'"
  by (auto simp: emits_def)

lemma forest_Nil: "forest level cs []"
  by (simp add: forest_def)

lemma forest_single:
  assumes "forest (Suc level) cs sub"
  shows "forest level [name] ((level, name) # sub)"
proof -
  have deeper: "\<forall>e\<in>set sub. level < fst e" using assms(1) by (auto simp: forest_def)
  then have "next_sibling level sub = None"
    using next_sibling_deeper[of sub level "[]"] by simp
  moreover have "\<And>n. (level, n) \<in> set sub \<Longrightarrow> False" using deeper by auto
  ultimately show ?thesis using assms deeper
    by (auto simp: forest_def intro: less_imp_le)
qed

lemma forest_append:
  assumes t1: "forest level [c] t1" and t2: "forest level rest t2"
    and s: "sorted (c # rest)"
    and shape: "t1 = [] \<or> (\<exists>sub. t1 = (level, c) # sub \<and> (\<forall>e\<in>set sub. level < fst e))"
  shows "forest level (c # rest) (t1 @ t2)"
proof (cases "t1 = []")
  case True
  then show ?thesis using t2 by (auto simp: forest_def)
next
  case False
  then obtain sub where sub: "t1 = (level, c) # sub" "\<forall>e\<in>set sub. level < fst e"
    using shape by auto
  have hd2: "t2 = [] \<or> fst (hd t2) \<le> level" using t2 by (auto simp: forest_def)
  have ss_sub: "siblings_sorted sub" using t1 sub by (simp add: forest_def)
  have ss2: "siblings_sorted t2" using t2 by (simp add: forest_def)
  have a: "siblings_sorted (sub @ t2)"
    using sub(2) hd2 ss_sub ss2 by (rule siblings_sorted_append)
  have ns: "next_sibling level (sub @ t2) = next_sibling level t2"
    using sub(2) by (rule next_sibling_deeper)
  have b: "case next_sibling level t2 of None \<Rightarrow> True | Some m \<Rightarrow> c \<le> m"
  proof (cases t2)
    case Nil
    then show ?thesis by simp
  next
    case (Cons e t2')
    obtain d m where e: "e = (d, m)" by (cases e)
    have "d = level" using t2 Cons e by (auto simp: forest_def)
    moreover have "m \<in> set rest" using t2 Cons e \<open>d = level\<close> by (auto simp: forest_def)
    ultimately show ?thesis using s Cons e by auto
  qed
  have ss: "siblings_sorted (t1 @ t2)" using a b ns sub(1) by simp
  show ?thesis using t1 t2 ss False sub(1)
    by (auto simp: forest_def)
qed

lemma write_trace:
  "\<exists>tr. emits st tr (write_hierarchy name cm level st) \<and> forest level [name] tr \<and>
        (if name \<in> snd st then tr = []
         else \<exists>sub. tr = (level, name) # sub \<and> (\<forall>e\<in>set sub. level < fst e))"
  "sorted cs \<Longrightarrow> \<exists>tr. emits st tr (write_children cs cm level st) \<and> forest level cs tr"
proof (induction name cm level st and cs cm level st rule: write_hierarchy_write_children.induct)
  case (1 name cm level out visited)
  show ?case
  proof (cases "name \<in> visited")
    case True
    then show ?thesis by (auto simp: emits_Nil forest_Nil intro!: exI[of _ "[]"])
  next
    case False
    show ?thesis
    proof (cases "map_of cm name")
      case None
      have "emits (out, visited) [(level, name)] (write_hierarchy name cm level (out, visited))"
        using False None by (simp add: emits_def)
      moreover have "forest level [name] [(level, name)]"
        using forest_single[OF forest_Nil] by simp
      ultimately show ?thesis using False by (intro exI[of _ "[(level, name)]"]) simp
    next
      case (Some children)
      from 1[OF False Some] obtain sub where
        sub: "emits (out @ [line level name], insert name visited) sub
                (write_children (sort children) cm (level + 1) (out @ [line level name], insert name visited))"
          "forest (level + 1) (sort children) sub"
        by auto
      have wh: "write_hierarchy name cm level (out, visited) =
          write_children (sort children) cm (level + 1) (out @ [line level name], insert name visited)"
        using False Some by simp
      have e: "emits (out, visited) ((level, name) # sub) (write_hierarchy name cm level (out, visited))"
        unfolding wh using False sub(1) by (intro emits_Cons) simp_all
      have f: "forest level [name] ((level, name) # sub)"
        using sub(2) by (intro forest_single[where cs = "sort children"]) simp_all
      have "\<forall>e\<in>set sub. level < fst e" using sub(2) by (auto simp: forest_def)
      then show ?thesis using e f False by (intro exI[of _ "(level, name) # sub"]) simp
    qed
  qed
next
  case (2 cm level st)
  show ?case by (auto simp: emits_Nil forest_Nil intro!: exI[of _ "[]"])
next
  case (3 child rest cm level st)
  from 3(1) obtain t1 where
    t1: "emits st t1 (write_hierarchy child cm level st)" "forest level [child] t1"
      "t1 = [] \<or> (\<exists>sub. t1 = (level, child) # sub \<and> (\<forall>e\<in>set sub. level < fst e))"
    by (metis (no_types, lifting))
  have "sorted rest" using 3(3) by simp
  from 3(2)[OF this] obtain t2 where
    t2: "emits (write_hierarchy child cm level st) t2
           (write_children rest cm level (write_hierarchy child cm level st))"
      "forest level rest t2"
    by auto
  have "emits st (t1 @ t2) (write_children (child # rest) cm level st)"
    using emits_append[OF t1(1) t2(1)] by simp
  moreover have "forest level (child # rest) (t1 @ t2)"
    using t1(2) t2(2) 3(3) t1(3) by (rule forest_append)
  ultimately show ?case by blast
qed

subsection \<open>The children map\<close>

lemma build_step_edge_of:
  "build_step rm r cm = (case edge_of (keys rm) r of None \<Rightarrow> cm | Some (p, c) \<Rightarrow> add_child p c cm)"
  by (simp add: build_step_def edge_of_def Let_def)

lemma keys_update: "keys (AList.update k v al) = insert k (keys al)"
  by (simp add: keys_def dom_update)

lemma map_of_add_child:
  "map_of (add_child p c cm) =
     (map_of cm)(p \<mapsto> (case map_of cm p of None \<Rightarrow> [c]
                        | Some cs \<Rightarrow> if c \<in> set cs then cs else cs @ [c]))"
  by (auto simp: add_child_def update_conv' split: option.splits)

lemma edges_add_child: "edges (add_child p c cm) = insert (p, c) (edges cm)"
  by (auto simp: edges_def map_of_add_child split: option.splits if_splits)

lemma map_of_keys: "map_of al k = Some v \<Longrightarrow> k \<in> keys al"
  by (auto simp: keys_def dest: map_of_SomeD intro: rev_image_eqI)

lemma keys_add_child: "keys (add_child p c cm) = insert p (keys cm)"
  by (cases "map_of cm p") (auto simp: add_child_def keys_update dest: map_of_keys)

lemma distinct_keys_add_child: "distinct (map fst cm) \<Longrightarrow> distinct (map fst (add_child p c cm))"
  by (auto simp: add_child_def distinct_update split: option.splits)

lemma add_child_present: "(p, c) \<in> edges cm \<Longrightarrow> add_child p c cm = cm"
  by (auto simp: edges_def add_child_def)

lemma add_child_idem: "add_child p c (add_child p c cm) = add_child p c cm"
  by (rule add_child_present) (simp add: edges_add_child)

lemma children_distinct_map_of:
  "children_distinct cm \<Longrightarrow> map_of cm p = Some cs \<Longrightarrow> distinct cs"
  by (auto simp: children_distinct_def list_all_iff dest: map_of_SomeD)

lemma list_all_update:
  "list_all (\<lambda>(k, v). P v) al \<Longrightarrow> P v \<Longrightarrow> list_all (\<lambda>(k, v). P v) (AList.update k v al)"
  by (induction al) auto

lemma children_distinct_add_child:
  assumes "children_distinct cm" shows "children_distinct (add_child p c cm)"
proof -
  have d: "distinct (map fst (add_child p c cm))"
    using assms by (simp add: children_distinct_def distinct_keys_add_child)
  have "list_all (\<lambda>(p, cs). distinct cs) (add_child p c cm)"
  proof (cases "map_of cm p")
    case None
    then show ?thesis using assms
      by (auto simp: add_child_def children_distinct_def intro!: list_all_update)
  next
    case (Some cs)
    then have "distinct cs" using assms by (rule children_distinct_map_of[rotated])
    then show ?thesis using assms Some
      by (auto simp: add_child_def children_distinct_def intro!: list_all_update)
  qed
  with d show ?thesis by (simp add: children_distinct_def)
qed

lemma build_step_cases:
  "build_step rm r cm = cm \<or> (\<exists>p c. edge_of (keys rm) r = Some (p, c) \<and> build_step rm r cm = add_child p c cm)"
  by (auto simp: build_step_edge_of split: option.splits)

lemma children_distinct_build_step:
  "children_distinct cm \<Longrightarrow> children_distinct (build_step rm r cm)"
  using build_step_cases[of rm r cm] by (auto simp: children_distinct_add_child)

lemma children_distinct_fold:
  "children_distinct cm \<Longrightarrow> children_distinct (fold (build_step rm) recs cm)"
  by (induction recs arbitrary: cm) (simp_all add: children_distinct_build_step)

lemma edges_build_step:
  "edges (build_step rm r cm) = edges cm \<union> set_option (edge_of (keys rm) r)"
  by (auto simp: build_step_edge_of edges_add_child split: option.splits)

lemma edges_fold:
  "edges (fold (build_step rm) recs cm) = edges cm \<union> (\<Union>r\<in>set recs. set_option (edge_of (keys rm) r))"
  by (induction recs arbitrary: cm) (auto simp: edges_build_step)

lemma edges_Nil [simp]: "edges [] = {}"
  by (simp add: edges_def)

lemma keys_fold_record_map:
  "keys (fold (\<lambda>r record_map. AList.update (normalize (rname r)) r record_map) recs rm)
     = keys rm \<union> (\<lambda>r. normalize (rname r)) ` set recs"
  by (induction recs arbitrary: rm) (auto simp: keys_update)

lemma keys_build_record_map:
  "keys (build_record_map recs) = (\<lambda>r. normalize (rname r)) ` set recs"
  unfolding build_record_map_def keys_fold_record_map by (simp add: keys_def)

lemma edges_build_hierarchy:
  "edges (fst (build_hierarchy recs))
     = (\<Union>r\<in>set recs. set_option (edge_of ((\<lambda>r. normalize (rname r)) ` set recs) r))"
  by (simp add: build_hierarchy_def Let_def edges_fold keys_build_record_map)

lemma children_distinct_build_hierarchy: "children_distinct (fst (build_hierarchy recs))"
proof -
  have "children_distinct []" by (simp add: children_distinct_def)
  then show ?thesis by (simp add: build_hierarchy_def Let_def children_distinct_fold)
qed

lemma edge_parent_known: "edge_of K r = Some (p, c) \<Longrightarrow> p \<in> K"
  by (auto simp: edge_of_def Let_def split: if_splits)


subsection \<open>Strings and tokens\<close>

lemma lower_char_idem: "lower_char (lower_char c) = lower_char c"
proof (cases "CHR ''A'' \<le> c \<and> c \<le> CHR ''Z''")
  case True
  then have r: "65 \<le> (of_char c :: nat)" "(of_char c :: nat) \<le> 90"
    by (simp_all add: less_eq_char_def)
  then have "(of_char (char_of (of_char c + (32::nat))) :: nat) = of_char c + 32"
    by simp
  then have "\<not> (char_of (of_char c + (32::nat)) \<le> CHR ''Z'')"
    using r by (simp add: less_eq_char_def)
  then show ?thesis using True by (simp add: lower_char_def)
next
  case False
  have "lower_char c = c" unfolding lower_char_def using False by (rule if_not_P)
  then show ?thesis by simp
qed

lemma lower_idem: "lower (lower s) = lower s"
  by (simp add: lower_def lower_char_idem)

lemma lower_fixed: "set s \<subseteq> range lower_char \<Longrightarrow> lower s = s"
  unfolding lower_def by (induction s) (auto simp: lower_char_idem)

lemma set_rstrip_dots: "set (rstrip_dots s) \<subseteq> set s"
  by (auto simp: rstrip_dots_def dest: set_dropWhileD)

lemma set_strip: "set (strip s) \<subseteq> set s"
  by (auto simp: strip_def dest!: set_dropWhileD)

lemma set_normalize: "set (normalize s) \<subseteq> range lower_char"
proof -
  have "set (normalize s) \<subseteq> set (lower s)"
    unfolding normalize_def using set_rstrip_dots set_strip by blast
  then show ?thesis by (auto simp: lower_def)
qed

lemma split_from_chars:
  "t \<in> set (split_from cur s) \<Longrightarrow> set t \<subseteq> set cur \<union> set s"
  by (induction cur s rule: split_from.induct) (auto split: if_splits)

lemma split_chars: "t \<in> set (split s) \<Longrightarrow> set t \<subseteq> set s"
  using split_from_chars[of t "[]" s] by (simp add: split_def)

lemma token_of_normalized:
  assumes "i < length (split (normalize s))"
  shows "normalize (split (normalize s) ! i) = rstrip_dots (strip (split (normalize s) ! i))"
proof -
  have "split (normalize s) ! i \<in> set (split (normalize s))" using assms by simp
  then have "set (split (normalize s) ! i) \<subseteq> range lower_char"
    using split_chars set_normalize by blast
  then show ?thesis by (simp add: normalize_def lower_fixed)
qed

lemma split_Nil [simp]: "split [] = []"
  by (simp add: split_def)

subsection \<open>Repeated records\<close>

lemma build_step_keys_cong: "keys rm = keys rm' \<Longrightarrow> build_step rm r cm = build_step rm' r cm"
  by (simp add: build_step_edge_of)

lemma build_step_idem: "build_step rm r (build_step rm r cm) = build_step rm r cm"
  by (auto simp: build_step_edge_of add_child_idem split: option.splits)

lemma fold_build_step_doubled:
  "fold (build_step rm) (concat (map (\<lambda>r. [r, r]) recs)) cm = fold (build_step rm) recs cm"
  by (induction recs arbitrary: cm) (simp_all add: build_step_idem)

lemma fold_fixed: "\<forall>x\<in>set xs. f x s = s \<Longrightarrow> fold f xs s = s"
  by (induction xs) simp_all

lemma build_step_present:
  assumes "set_option (edge_of (keys rm) r) \<subseteq> edges cm"
  shows "build_step rm r cm = cm"
  using assms by (auto simp: build_step_edge_of add_child_present split: option.splits)

lemma fold_build_step_again:
  "fold (build_step rm) recs (fold (build_step rm) recs cm) = fold (build_step rm) recs cm"
proof (rule fold_fixed, rule ballI)
  fix r assume "r \<in> set recs"
  then have "set_option (edge_of (keys rm) r) \<subseteq> edges (fold (build_step rm) recs cm)"
    by (auto simp: edges_fold)
  then show "build_step rm r (fold (build_step rm) recs cm) = fold (build_step rm) recs cm"
    by (rule build_step_present)
qed

lemma fold_build_step_cong:
  "keys rm = keys rm' \<Longrightarrow> fold (build_step rm) recs cm = fold (build_step rm') recs cm"
  by (induction recs arbitrary: cm) (simp_all add: build_step_keys_cong[of rm rm'])

subsection \<open>The blocks of the output\<close>

lemma write_prefix:
  fixes st :: "string list \<times> string set"
  shows "\<forall>out. write_hierarchy name cm level (out, snd st) =
     (out @ fst (write_hierarchy name cm level ([], snd st)),
      snd (write_hierarchy name cm level ([], snd st)))"
  and "\<forall>out. write_children cs cm level (out, snd st) =
     (out @ fst (write_children cs cm level ([], snd st)),
      snd (write_children cs cm level ([], snd st)))"
proof (induction name cm level st and cs cm level st rule: write_hierarchy_write_children.induct)
  case (1 name cm level out visited)
  show ?case
  proof (cases "name \<in> visited")
    case True
    then show ?thesis by simp
  next
    case False
    show ?thesis
    proof (cases "map_of cm name")
      case None
      then show ?thesis using False by simp
    next
      case (Some children)
      note ih = 1[OF False Some, simplified, rule_format]
      show ?thesis
      proof (intro allI)
        fix out'
        have "write_hierarchy name cm level (out', visited) =
            write_children (sort children) cm (Suc level) (out' @ [line level name], insert name visited)"
          using False Some by simp
        also have "\<dots> = ((out' @ [line level name]) @
            fst (write_children (sort children) cm (Suc level) ([], insert name visited)),
            snd (write_children (sort children) cm (Suc level) ([], insert name visited)))"
          by (rule ih)
        finally have a: "write_hierarchy name cm level (out', visited) =
            (out' @ line level name #
               fst (write_children (sort children) cm (Suc level) ([], insert name visited)),
             snd (write_children (sort children) cm (Suc level) ([], insert name visited)))"
          by simp
        have "write_hierarchy name cm level ([], visited) =
            write_children (sort children) cm (Suc level) ([line level name], insert name visited)"
          using False Some by simp
        also have "\<dots> = ([line level name] @
            fst (write_children (sort children) cm (Suc level) ([], insert name visited)),
            snd (write_children (sort children) cm (Suc level) ([], insert name visited)))"
          by (rule ih)
        finally have b: "write_hierarchy name cm level ([], visited) =
            (line level name #
               fst (write_children (sort children) cm (Suc level) ([], insert name visited)),
             snd (write_children (sort children) cm (Suc level) ([], insert name visited)))"
          by simp
        show "write_hierarchy name cm level (out', snd (out, visited)) =
            (out' @ fst (write_hierarchy name cm level ([], snd (out, visited))),
             snd (write_hierarchy name cm level ([], snd (out, visited))))"
          unfolding snd_conv a b by simp
      qed
    qed
  qed
next
  case (2 cm level st)
  show ?case by simp
next
  case (3 child rest cm level st)
  note ih1 = 3(1)[rule_format]
  have "write_hierarchy child cm level (fst st, snd st) =
      (fst st @ fst (write_hierarchy child cm level ([], snd st)),
       snd (write_hierarchy child cm level ([], snd st)))"
    by (rule ih1)
  then have s: "snd (write_hierarchy child cm level st) = snd (write_hierarchy child cm level ([], snd st))"
    by (simp only: prod.collapse snd_conv)
  note ih2 = 3(2)[unfolded s, rule_format]
  show ?case
  proof (intro allI)
    fix out
    let ?h = "write_hierarchy child cm level ([], snd st)"
    have "write_children (child # rest) cm level (out, snd st) =
        write_children rest cm level (out @ fst ?h, snd ?h)"
      unfolding write_children.simps ih1[of out] ..
    also have "\<dots> = ((out @ fst ?h) @ fst (write_children rest cm level ([], snd ?h)),
        snd (write_children rest cm level ([], snd ?h)))"
      by (rule ih2)
    finally have a: "write_children (child # rest) cm level (out, snd st) =
        (out @ fst ?h @ fst (write_children rest cm level ([], snd ?h)),
         snd (write_children rest cm level ([], snd ?h)))"
      by simp
    have "write_children (child # rest) cm level ([], snd st) =
        write_children rest cm level (fst ?h, snd ?h)"
      unfolding write_children.simps prod.collapse ..
    also have "\<dots> = (fst ?h @ fst (write_children rest cm level ([], snd ?h)),
        snd (write_children rest cm level ([], snd ?h)))"
      by (rule ih2)
    finally show "write_children (child # rest) cm level (out, snd st) =
        (out @ fst (write_children (child # rest) cm level ([], snd st)),
         snd (write_children (child # rest) cm level ([], snd st)))"
      unfolding a by simp
  qed
qed

lemma write_hierarchy_prefix:
  "fst (write_hierarchy name cm level (out, vis)) = out @ fst (write_hierarchy name cm level ([], vis))"
proof -
  have "write_hierarchy name cm level (out, snd (out, vis)) =
      (out @ fst (write_hierarchy name cm level ([], snd (out, vis))),
       snd (write_hierarchy name cm level ([], snd (out, vis))))"
    by (rule write_prefix(1)[of name cm level "(out, vis)", THEN spec])
  then have "write_hierarchy name cm level (out, vis) =
      (out @ fst (write_hierarchy name cm level ([], vis)),
       snd (write_hierarchy name cm level ([], vis)))"
    unfolding snd_conv .
  then show ?thesis by (simp only: fst_conv)
qed

lemma write_domains_blocks:
  "write_domains ds cm out = out @ concat (map (\<lambda>d. fst (write_hierarchy d cm 1 ([], {}))) ds)"
proof (induction ds arbitrary: out)
  case Nil
  then show ?case by (simp add: write_domains_def)
next
  case (Cons d ds)
  have "write_domains (d # ds) cm out = write_domains ds cm (fst (write_hierarchy d cm 1 (out, {})))"
    by (simp add: write_domains_def del: write_hierarchy.simps)
  also have "\<dots> = fst (write_hierarchy d cm 1 (out, {})) @
      concat (map (\<lambda>d. fst (write_hierarchy d cm 1 ([], {}))) ds)"
    by (rule Cons.IH)
  finally show ?case
    unfolding write_hierarchy_prefix[of d cm 1 out] by (simp del: write_hierarchy.simps)
qed

lemma write_root_blocks:
  "write_root cm ipm root out = out @
     (case map_of ipm root of
        Some domains \<Rightarrow>
          line 0 root # concat (map (\<lambda>d. fst (write_hierarchy d cm 1 ([], {}))) (sort domains))
      | None \<Rightarrow> fst (write_hierarchy root cm 0 ([], {})))"
proof (cases "map_of ipm root")
  case None
  then show ?thesis
    unfolding write_root_def write_hierarchy_prefix[of root cm 0 out]
    by (simp del: write_hierarchy.simps)
next
  case (Some domains)
  then show ?thesis
    unfolding write_root_def write_domains_blocks
    by (simp add: line_0 del: write_hierarchy.simps)
qed

lemma write_root_prefix: "write_root cm ipm root out = out @ write_root cm ipm root []"
  using write_root_blocks[of cm ipm root out] write_root_blocks[of cm ipm root "[]"]
  by (simp del: write_hierarchy.simps)

lemma fold_write_root:
  "fold (write_root cm ipm) roots out = out @ concat (map (\<lambda>r. write_root cm ipm r []) roots)"
proof (induction roots arbitrary: out)
  case Nil
  then show ?case by simp
next
  case (Cons r roots)
  show ?case using Cons.IH[of "write_root cm ipm r out"] write_root_prefix[of cm ipm r out]
    by simp
qed

lemma generate_mindmap_blocks:
  "generate_mindmap recs =
     [''# DNS Record Hierarchy'', []] @
     concat (map (\<lambda>r. write_root (fst (build_hierarchy recs))
                          (fst (reroot recs (fst (build_hierarchy recs)))) r [])
               (final_roots recs (fst (build_hierarchy recs))
                  (reroot recs (fst (build_hierarchy recs)))))"
  unfolding generate_mindmap_def Let_def by (rule fold_write_root)

subsection \<open>The visited set\<close>


lemma visited_grows:
  "snd st \<subseteq> snd (write_hierarchy name cm level st)"
  "snd st \<subseteq> snd (write_children cs cm level st)"
  using write_hierarchy_total visited_grows_dom by blast+

lemma start_visited: "name \<in> snd (write_hierarchy name cm level st)"
proof (cases st)
  case (Pair out visited)
  show ?thesis
  proof (cases "name \<in> visited")
    case True
    then show ?thesis using Pair by simp
  next
    case False
    show ?thesis
    proof (cases "map_of cm name")
      case None
      then show ?thesis using False Pair by simp
    next
      case (Some children)
      have "name \<in> snd (out @ [line level name], insert name visited)" by simp
      then have "name \<in> snd (write_children (sort children) cm (level + 1)
          (out @ [line level name], insert name visited))"
        using visited_grows(2) by blast
      then show ?thesis using False Some Pair by simp
    qed
  qed
qed

lemma visited_closed:
  "closed_new cm (snd st) (snd (write_hierarchy name cm level st))"
  "closed_new cm (snd st) (snd (write_children cs cm level st)) \<and>
     set cs \<subseteq> snd (write_children cs cm level st)"
proof (induction name cm level st and cs cm level st rule: write_hierarchy_write_children.induct)
  case (1 name cm level out visited)
  show ?case
  proof (cases "name \<in> visited")
    case True
    then show ?thesis by (simp add: closed_new_def)
  next
    case False
    show ?thesis
    proof (cases "map_of cm name")
      case None
      then show ?thesis using False by (auto simp: closed_new_def)
    next
      case (Some children)
      let ?r = "write_children (sort children) cm (level + 1)
          (out @ [line level name], insert name visited)"
      have wh: "write_hierarchy name cm level (out, visited) = ?r"
        using False Some by simp
      from 1[OF False Some] have
        c: "closed_new cm (insert name visited) (snd ?r)" and s: "set children \<subseteq> snd ?r"
        by simp_all
      show ?thesis unfolding wh snd_conv closed_new_def
      proof (intro ballI allI impI)
        fix p cs assume p: "p \<in> snd ?r - visited" and m: "map_of cm p = Some cs"
        show "set cs \<subseteq> snd ?r"
        proof (cases "p = name")
          case True
          then show ?thesis using m Some s by simp
        next
          case False
          then have "p \<in> snd ?r - insert name visited" using p by simp
          then show ?thesis using c m unfolding closed_new_def by blast
        qed
      qed
    qed
  qed
next
  case (2 cm level st)
  show ?case by (simp add: closed_new_def)
next
  case (3 child rest cm level st)
  let ?h = "write_hierarchy child cm level st"
  let ?r = "write_children rest cm level ?h"
  have g: "snd ?h \<subseteq> snd ?r" by (rule visited_grows(2))
  have c1: "closed_new cm (snd st) (snd ?h)" by (rule 3(1))
  have c2: "closed_new cm (snd ?h) (snd ?r)" and s2: "set rest \<subseteq> snd ?r"
    using 3(2) by simp_all
  have "child \<in> snd ?h" by (rule start_visited)
  then have "child \<in> snd ?r" using g by blast
  moreover have "closed_new cm (snd st) (snd ?r)"
    unfolding closed_new_def
  proof (intro ballI allI impI)
    fix p cs assume p: "p \<in> snd ?r - snd st" and m: "map_of cm p = Some cs"
    show "set cs \<subseteq> snd ?r"
    proof (cases "p \<in> snd ?h")
      case True
      then have "set cs \<subseteq> snd ?h" using c1 p m by (auto simp: closed_new_def)
      then show ?thesis using g by blast
    next
      case False
      then show ?thesis using c2 p m by (auto simp: closed_new_def)
    qed
  qed
  ultimately show ?case using s2 by simp
qed

lemma reachable_visited:
  assumes "(name, n) \<in> (edges cm)\<^sup>*"
  shows "n \<in> snd (write_hierarchy name cm level (out, {}))"
  using assms
proof (induction rule: rtrancl_induct)
  case base
  show ?case by (rule start_visited)
next
  case (step p c)
  from step(2) obtain cs where "map_of cm p = Some cs" "c \<in> set cs"
    by (auto simp: edges_def)
  moreover have "closed_new cm {} (snd (write_hierarchy name cm level (out, {})))"
    using visited_closed(1)[of cm "(out, {})" name level] by simp
  ultimately show ?case using step(3) by (auto simp: closed_new_def)
qed

lemma line_name_fmt: "map line_name (fmt tr) = map snd tr"
  by (induction tr) auto

lemma line_level_fmt: "map line_level (fmt tr) = map fst tr"
  by (induction tr) auto

lemma call_trace:
  "\<exists>tr. write_hierarchy name cm level (out, vis) =
          (out @ fmt tr, vis \<union> snd ` set tr) \<and>
        distinct (map snd tr) \<and> snd ` set tr \<inter> vis = {} \<and> forest level [name] tr \<and>
        (if name \<in> vis then tr = []
         else \<exists>sub. tr = (level, name) # sub \<and> (\<forall>e\<in>set sub. level < fst e))"
  using write_trace(1)[of "(out, vis)" name cm level] unfolding emits_def
  by (auto simp del: write_hierarchy.simps)

lemma all_children_edges: "distinct (map fst cm) \<Longrightarrow> all_children cm = snd ` edges cm"
  by (force simp: all_children_eq edges_def dest: map_of_SomeD)

lemma distinct_keys_build_hierarchy: "distinct (map fst (fst (build_hierarchy recs)))"
  using children_distinct_build_hierarchy[of recs] by (simp add: children_distinct_def)


lemma count_list_distinct: "distinct xs \<Longrightarrow> x \<in> set xs \<Longrightarrow> count_list xs x = 1"
  by (induction xs) (auto simp: count_list_0_iff)

subsection \<open>Re-rooting and the root list\<close>

lemma is_root_iff: "is_root cm n \<longleftrightarrow> n \<notin> all_children cm"
  by (auto simp: is_root_def list_ex_iff all_children_eq)

lemma reroot_step_eq:
  "reroot_step cm r st =
     (if rerootable cm r
      then (ip_append (normalize (get_content r)) (normalize (rname r)) (fst st),
            insert (normalize (rname r)) (snd st))
      else st)"
  by (simp add: reroot_step_def rerootable_def Let_def)

lemma map_of_ip_append:
  "map_of (ip_append c n ipm) =
     (map_of ipm)(c \<mapsto> (case map_of ipm c of None \<Rightarrow> [n] | Some ds \<Rightarrow> ds @ [n]))"
  by (auto simp: ip_append_def update_conv' split: option.splits)

lemma domains_of_Nil [simp]: "domains_of cm [] c = []"
  by (simp add: domains_of_def)

lemma domains_of_append:
  "domains_of cm (xs @ ys) c = domains_of cm xs c @ domains_of cm ys c"
  by (simp add: domains_of_def)

lemma domains_of_Cons:
  "domains_of cm (r # recs) c =
     (if rerootable cm r \<and> normalize (get_content r) = c
      then normalize (rname r) # domains_of cm recs c else domains_of cm recs c)"
  by (simp add: domains_of_def)

lemma map_of_fold_reroot:
  "map_of (fst (fold (reroot_step cm) recs st)) c =
     (case map_of (fst st) c of
        None \<Rightarrow> if domains_of cm recs c = [] then None else Some (domains_of cm recs c)
      | Some ds \<Rightarrow> Some (ds @ domains_of cm recs c))"
proof (induction recs arbitrary: st)
  case Nil
  then show ?case by (simp split: option.splits)
next
  case (Cons r recs)
  show ?case
  proof (cases "rerootable cm r")
    case False
    then have st: "reroot_step cm r st = st"
      by (simp add: reroot_step_eq[of cm r st])
    have d: "domains_of cm (r # recs) c = domains_of cm recs c"
      using False by (simp add: domains_of_Cons)
    show ?thesis unfolding d fold_simps st by (rule Cons.IH)
  next
    case True
    let ?st = "(ip_append (normalize (get_content r)) (normalize (rname r)) (fst st),
            insert (normalize (rname r)) (snd st))"
    have "map_of (fst (fold (reroot_step cm) (r # recs) st)) c
        = map_of (fst (fold (reroot_step cm) recs ?st)) c"
      using True by (simp add: reroot_step_eq[of cm r st])
    also have "\<dots> = (case map_of (fst ?st) c of
        None \<Rightarrow> if domains_of cm recs c = [] then None else Some (domains_of cm recs c)
      | Some ds \<Rightarrow> Some (ds @ domains_of cm recs c))"
      by (rule Cons.IH)
    finally show ?thesis using True
      by (auto simp: map_of_ip_append domains_of_Cons split: option.splits)
  qed
qed

lemma map_of_reroot:
  "map_of (fst (reroot recs cm)) c =
     (if domains_of cm recs c = [] then None else Some (domains_of cm recs c))"
  by (simp add: reroot_def map_of_fold_reroot)

lemma snd_fold_reroot:
  "snd (fold (reroot_step cm) recs st) =
     snd st \<union> (\<lambda>r. normalize (rname r)) ` {r \<in> set recs. rerootable cm r}"
  by (induction recs arbitrary: st) (auto simp: reroot_step_eq)

lemma snd_reroot:
  "snd (reroot recs cm) = (\<lambda>r. normalize (rname r)) ` {r \<in> set recs. rerootable cm r}"
  by (simp add: reroot_def snd_fold_reroot)

lemma keys_map_of: "keys al = dom (map_of al)"
  by (simp add: keys_def dom_map_of_conv_image_fst)

lemma keys_reroot:
  "keys (fst (reroot recs cm)) =
     (\<lambda>r. normalize (get_content r)) ` {r \<in> set recs. rerootable cm r}"
proof -
  have "domains_of cm recs c \<noteq> [] \<longleftrightarrow>
      c \<in> (\<lambda>r. normalize (get_content r)) ` {r \<in> set recs. rerootable cm r}" for c
    by (auto simp: domains_of_def filter_empty_conv)
  then show ?thesis
    unfolding keys_map_of by (auto simp: dom_def map_of_reroot)
qed

lemma fold_insert_if:
  "fold (\<lambda>r roots. if P r then insert (f r) roots else roots) recs A
     = A \<union> f ` {r \<in> set recs. P r}"
  by (induction recs arbitrary: A) auto

lemma find_root_records_set:
  "set (find_root_records recs cm) =
     {n \<in> (\<lambda>r. root_name (rname r)) ` set recs. n \<notin> all_children cm}"
proof -
  have "finite ((\<lambda>r. root_name (rname r)) `
      {r \<in> set recs. root_name (rname r) \<notin> all_children cm})" by simp
  then show ?thesis
    unfolding find_root_records_def fold_insert_if by auto
qed

lemma final_roots_set:
  "set (final_roots recs cm rr) = (set (find_root_records recs cm) - snd rr) \<union> keys (fst rr)"
  by (auto simp: final_roots_def Let_def keys_def)


lemma count_list_filter: "count_list xs y = length (filter (\<lambda>x. x = y) xs)"
  by (induction xs) auto

lemma count_list_sort: "count_list (sort xs) y = count_list xs y"
  by (simp add: count_list_filter filter_sort)

lemma count_list_concat:
  "count_list (concat xss) y = sum_list (map (\<lambda>xs. count_list xs y) xss)"
  by (induction xss) auto

lemma count_list_fmt_deeper:
  "\<forall>e\<in>set tr. l < fst e \<Longrightarrow> count_list (fmt tr) (line l n) = 0"
  by (induction tr) (auto simp: line_inject)

lemma count_call_line:
  "count_list (fst (write_hierarchy d cm l ([], {}))) (line l n) = (if d = n then 1 else 0)"
proof -
  obtain tr sub where "write_hierarchy d cm l ([], {}) = ([] @ fmt tr, {} \<union> snd ` set tr)"
    "tr = (l, d) # sub" "\<forall>e\<in>set sub. l < fst e"
    using call_trace[of d cm l "[]" "{}"] by auto
  then show ?thesis
    by (simp add: count_list_fmt_deeper line_inject del: write_hierarchy.simps)
qed

lemma sum_list_indicator:
  "sum_list (map (\<lambda>d. if d = n then 1 else 0) ds) = count_list ds n"
  by (induction ds) auto

lemma count_domains_block:
  "count_list (concat (map (\<lambda>d. fst (write_hierarchy d cm (Suc 0) ([], {}))) ds)) (line (Suc 0) n)
     = count_list ds n"
  unfolding count_list_concat map_map comp_def count_call_line by (rule sum_list_indicator)

lemma count_synthetic_block:
  assumes "map_of ipm c = Some ds"
  shows "count_list (write_root cm ipm c []) (line 1 n) = count_list ds n"
  unfolding write_root_blocks[of cm ipm c "[]"] using assms
  by (simp add: count_domains_block count_list_sort line_inject del: write_hierarchy.simps)

subsection \<open>Names that are never reached\<close>

lemma not_visited:
  "\<forall>p cs. map_of cm p = Some cs \<and> n \<in> set cs \<longrightarrow> p = n \<Longrightarrow>
     name \<noteq> n \<Longrightarrow> n \<notin> snd st \<Longrightarrow> n \<notin> snd (write_hierarchy name cm level st)"
  "\<forall>p cs. map_of cm p = Some cs \<and> n \<in> set cs \<longrightarrow> p = n \<Longrightarrow>
     n \<notin> set cs \<Longrightarrow> n \<notin> snd st \<Longrightarrow> n \<notin> snd (write_children cs cm level st)"
proof (induction name cm level st and cs cm level st rule: write_hierarchy_write_children.induct)
  case (1 name cm level out visited)
  show ?case
  proof (cases "name \<in> visited")
    case True
    then show ?thesis using 1(4) by simp
  next
    case False
    show ?thesis
    proof (cases "map_of cm name")
      case None
      then show ?thesis using False 1(3,4) by simp
    next
      case (Some children)
      have "n \<notin> set children" using 1(2) Some 1(3) by blast
      then have "n \<notin> snd (write_children (sort children) cm (level + 1)
          (out @ [line level name], insert name visited))"
        using 1(1)[OF False Some 1(2)] 1(3,4) by simp
      then show ?thesis using False Some by simp
    qed
  qed
next
  case (2 cm level st)
  then show ?case by simp
next
  case (3 child rest cm level st)
  have "child \<noteq> n" "n \<notin> set rest" using 3(4) by auto
  then have "n \<notin> snd (write_hierarchy child cm level st)"
    using 3(1)[OF 3(3)] 3(5) by blast
  then have "n \<notin> snd (write_children rest cm level (write_hierarchy child cm level st))"
    using 3(2)[OF 3(3) \<open>n \<notin> set rest\<close>] by blast
  then show ?case by simp
qed

lemma no_line_in_call:
  assumes "\<forall>p cs. map_of cm p = Some cs \<and> n \<in> set cs \<longrightarrow> p = n" "name \<noteq> n"
  shows "line d n \<notin> set (fst (write_hierarchy name cm level ([], {})))"
proof -
  obtain tr where tr: "write_hierarchy name cm level ([], {}) = ([] @ fmt tr, {} \<union> snd ` set tr)"
    using call_trace[of name cm level "[]" "{}"] by blast
  have "n \<notin> snd (write_hierarchy name cm level ([], {}))"
    using not_visited(1)[OF assms(1), of name "([], {})" level] assms(2) by simp
  then have "n \<notin> snd ` set tr" unfolding tr by simp
  then have "line d n \<notin> set (fmt tr)"
    by (force simp: fmt_def line_inject)
  then show ?thesis unfolding tr by simp
qed

lemma edges_map_of: "(p, c) \<in> edges cm \<longleftrightarrow> (\<exists>cs. map_of cm p = Some cs \<and> c \<in> set cs)"
  by (simp add: edges_def)

lemma generate_mindmap_line:
  assumes "l \<in> set (generate_mindmap recs)"
  shows "l = ''# DNS Record Hierarchy'' \<or> l = [] \<or>
     (\<exists>root \<in> set (final_roots recs (fst (build_hierarchy recs))
                       (reroot recs (fst (build_hierarchy recs)))).
        l \<in> set (write_root (fst (build_hierarchy recs))
                   (fst (reroot recs (fst (build_hierarchy recs)))) root []))"
  using assms unfolding generate_mindmap_blocks by auto

lemma line_not_header: "line d n \<noteq> ''# DNS Record Hierarchy''" "line d n \<noteq> []"
proof -
  have "line d n \<noteq> []" by (simp add: line_def)
  moreover have "hd (line d n) \<noteq> CHR ''#''"
    by (cases d) (simp_all add: line_def)
  ultimately show "line d n \<noteq> ''# DNS Record Hierarchy''" "line d n \<noteq> []" by auto
qed

subsection \<open>Normal forms\<close>

lemma is_space_code: "is_space c \<Longrightarrow> (of_char c :: nat) \<le> 32"
  by (auto simp: is_space_def)

lemma is_space_lower_char: "is_space (lower_char c) = is_space c"
proof (cases "CHR ''A'' \<le> c \<and> c \<le> CHR ''Z''")
  case True
  then have r: "65 \<le> (of_char c :: nat)" "(of_char c :: nat) \<le> 90"
    by (simp_all add: less_eq_char_def)
  then have v: "(of_char (char_of (of_char c + (32::nat))) :: nat) = of_char c + 32"
    by simp
  have "\<not> is_space (char_of (of_char c + (32::nat)))"
    using is_space_code[of "char_of (of_char c + (32::nat))"] r unfolding v by auto
  moreover have "\<not> is_space c"
    using is_space_code[of c] r by auto
  ultimately show ?thesis using True by (simp add: lower_char_def)
next
  case False
  have "lower_char c = c" unfolding lower_char_def using False by (rule if_not_P)
  then show ?thesis by simp
qed

lemma lower_char_dot: "lower_char CHR ''.'' = CHR ''.''"
  by (simp add: lower_char_def less_eq_char_def)

lemma lower_append_dots: "lower (s @ replicate k CHR ''.'') = lower s @ replicate k CHR ''.''"
  by (simp add: lower_def lower_char_dot)

lemma not_space_dot: "\<not> is_space CHR ''.''"
  by (simp add: is_space_def)

lemma dropWhile_dots:
  "dropWhile (\<lambda>c. c = CHR ''.'') (replicate k CHR ''.'' @ ys) = dropWhile (\<lambda>c. c = CHR ''.'') ys"
  by (induction k) simp_all

lemma rstrip_dots_append: "rstrip_dots (x @ replicate k CHR ''.'') = rstrip_dots x"
  by (simp add: rstrip_dots_def dropWhile_dots)

lemma strip_keeps:
  assumes "x \<noteq> []" "\<not> is_space (last x)"
  shows "strip x = dropWhile is_space x" "dropWhile is_space x \<noteq> []"
    "last (dropWhile is_space x) = last x"
proof -
  have mem: "last x \<in> set x" using assms(1) by simp
  then show ne: "dropWhile is_space x \<noteq> []"
    using assms(2) by (auto simp: dropWhile_eq_Nil_conv)
  show l: "last (dropWhile is_space x) = last x"
    using ne last_appendR[of "dropWhile is_space x" "takeWhile is_space x"] by simp
  have "hd (rev (dropWhile is_space x)) = last x"
    using ne l by (simp add: hd_rev)
  then have "dropWhile is_space (rev (dropWhile is_space x)) = rev (dropWhile is_space x)"
    using ne assms(2) by (cases "rev (dropWhile is_space x)") auto
  then show "strip x = dropWhile is_space x" by (simp add: strip_def)
qed

lemma strip_append_dots:
  assumes "x = [] \<or> \<not> is_space (last x)"
  shows "rstrip_dots (strip (x @ replicate k CHR ''.'')) = rstrip_dots (strip x)"
proof (cases "k = 0")
  case True
  then show ?thesis by simp
next
  case False
  let ?d = "replicate k CHR ''.''"
  have dne: "?d \<noteq> []" using False by simp
  have ld: "last (x @ ?d) = CHR ''.''" using False by simp
  have ns: "\<not> is_space (last (x @ ?d))" unfolding ld by (rule not_space_dot)
  have s1: "strip (x @ ?d) = dropWhile is_space (x @ ?d)"
    using dne ns by (intro strip_keeps(1)) simp_all
  show ?thesis
  proof (cases "x = []")
    case True
    have "dropWhile is_space ?d = ?d"
      using False by (cases k) (simp_all add: not_space_dot)
    then have "strip ?d = ?d" using s1 True by simp
    moreover have "rstrip_dots ?d = []"
      using rstrip_dots_append[of "[]" k] by (simp add: rstrip_dots_def)
    moreover have "strip [] = []" by (simp add: strip_def)
    ultimately show ?thesis using True by (simp add: rstrip_dots_def)
  next
    case xne: False
    then have nsx: "\<not> is_space (last x)" using assms by simp
    have "last x \<in> set x" using xne by simp
    then have "dropWhile is_space (x @ ?d) = dropWhile is_space x @ ?d"
      using nsx by (rule dropWhile_append1)
    then have "strip (x @ ?d) = strip x @ ?d"
      using s1 strip_keeps(1)[OF xne nsx] by simp
    then show ?thesis by (simp add: rstrip_dots_append)
  qed
qed

lemma normalize_append_dots:
  assumes "s = [] \<or> \<not> is_space (last s)"
  shows "normalize (s @ replicate k CHR ''.'') = normalize s"
proof -
  have "lower s = [] \<or> \<not> is_space (last (lower s))"
  proof (cases "s = []")
    case True
    then show ?thesis by (simp add: lower_def)
  next
    case False
    then have "last (lower s) = lower_char (last s)"
      by (simp add: lower_def last_map)
    then show ?thesis using assms False by (simp add: is_space_lower_char)
  qed
  then show ?thesis
    unfolding normalize_def lower_append_dots by (rule strip_append_dots)
qed

lemma normalize_no_trailing_dot: "normalize s = [] \<or> last (normalize s) \<noteq> CHR ''.''"
proof -
  have "rstrip_dots x = [] \<or> last (rstrip_dots x) \<noteq> CHR ''.''" for x
  proof (cases "dropWhile (\<lambda>c. c = CHR ''.'') (rev x)")
    case Nil
    then show ?thesis by (simp add: rstrip_dots_def)
  next
    case (Cons c cs)
    then have "c \<noteq> CHR ''.''" using hd_dropWhile[of "\<lambda>c. c = CHR ''.''" "rev x"] by auto
    then show ?thesis using Cons by (simp add: rstrip_dots_def)
  qed
  then show ?thesis by (simp add: normalize_def)
qed

lemma edge_of_rkey:
  assumes "rkey r = rkey r'"
  shows "edge_of K r = edge_of K r'"
proof -
  have a: "normalize (rname r) = normalize (rname r')" and b: "rtype r = rtype r'"
    and c: "normalize (get_content r) = normalize (get_content r')"
    using assms by (simp_all add: rkey_def)
  show ?thesis unfolding edge_of_def a b c ..
qed

lemma build_step_rkey:
  "rkey r = rkey r' \<Longrightarrow> keys rm = keys rm' \<Longrightarrow> build_step rm r cm = build_step rm' r' cm"
  by (simp add: build_step_edge_of edge_of_rkey[of r r'])

lemma fold_build_step_rkey:
  "map rkey recs = map rkey recs' \<Longrightarrow> keys rm = keys rm' \<Longrightarrow>
     fold (build_step rm) recs cm = fold (build_step rm') recs' cm"
proof (induction recs arbitrary: recs' cm)
  case Nil
  then show ?case by simp
next
  case (Cons r recs)
  then obtain r' rest where r': "recs' = r' # rest" "rkey r = rkey r'" "map rkey recs = map rkey rest"
    by (cases recs') auto
  show ?case unfolding r'(1) fold_simps build_step_rkey[OF r'(2) Cons.prems(2)]
    using r'(3) Cons.prems(2) by (rule Cons.IH)
qed

lemma reroot_step_rkey:
  assumes "rkey r = rkey r'"
  shows "reroot_step cm r st = reroot_step cm r' st"
proof -
  have a: "normalize (rname r) = normalize (rname r')" and b: "rtype r = rtype r'"
    and c: "normalize (get_content r) = normalize (get_content r')"
    using assms by (simp_all add: rkey_def)
  show ?thesis unfolding reroot_step_def a b c ..
qed

lemma fold_reroot_step_rkey:
  "map rkey recs = map rkey recs' \<Longrightarrow>
     fold (reroot_step cm) recs st = fold (reroot_step cm) recs' st"
proof (induction recs arbitrary: recs' st)
  case Nil
  then show ?case by simp
next
  case (Cons r recs)
  then obtain r' rest where r': "recs' = r' # rest" "rkey r = rkey r'" "map rkey recs = map rkey rest"
    by (cases recs') auto
  show ?case unfolding r'(1) fold_simps reroot_step_rkey[OF r'(2)]
    using r'(3) by (rule Cons.IH)
qed

subsection \<open>The sibling order of the whole output\<close>







subsection \<open>Independence of the record order\<close>












subsection \<open>The names written by one call\<close>

lemma visited_reachable:
  "snd (write_hierarchy name cm level st) \<subseteq> snd st \<union> {n. (name, n) \<in> (edges cm)\<^sup>*}"
  "snd (write_children cs cm level st) \<subseteq> snd st \<union> {n. \<exists>c\<in>set cs. (c, n) \<in> (edges cm)\<^sup>*}"
proof (induction name cm level st and cs cm level st rule: write_hierarchy_write_children.induct)
  case (1 name cm level out visited)
  show ?case
  proof (cases "name \<in> visited")
    case True
    then show ?thesis by auto
  next
    case False
    show ?thesis
    proof (cases "map_of cm name")
      case None
      then show ?thesis using False by auto
    next
      case (Some children)
      let ?r = "write_children (sort children) cm (level + 1)
          (out @ [line level name], insert name visited)"
      have wh: "write_hierarchy name cm level (out, visited) = ?r"
        using False Some by simp
      have ih: "snd ?r \<subseteq> insert name visited \<union> {n. \<exists>c\<in>set (sort children). (c, n) \<in> (edges cm)\<^sup>*}"
        using 1[OF False Some] by simp
      have "(name, n) \<in> (edges cm)\<^sup>*" if "c \<in> set children" "(c, n) \<in> (edges cm)\<^sup>*" for c n
      proof -
        have "(name, c) \<in> edges cm" using Some that(1) by (auto simp: edges_map_of)
        then show ?thesis using that(2) by (rule converse_rtrancl_into_rtrancl)
      qed
      then show ?thesis unfolding wh snd_conv using ih by auto
    qed
  qed
next
  case (2 cm level st)
  show ?case by simp
next
  case (3 child rest cm level st)
  then show ?case by auto
qed

lemma call_names:
  "snd (write_hierarchy x cm l (out, {})) = {n. (x, n) \<in> (edges cm)\<^sup>*}"
  using visited_reachable(1)[of x cm l "(out, {})"] reachable_visited[of x _ cm l out]
  by (auto simp del: write_hierarchy.simps)

lemma count_list_distinct_if:
  "distinct xs \<Longrightarrow> count_list xs x = (if x \<in> set xs then 1 else 0)"
  by (simp add: count_list_distinct count_list_0_iff)

lemma count_call_name:
  "count_list (map line_name (fst (write_hierarchy x cm l ([], {})))) n
     = (if (x, n) \<in> (edges cm)\<^sup>* then 1 else 0)"
proof -
  obtain tr where tr: "write_hierarchy x cm l ([], {}) = ([] @ fmt tr, {} \<union> snd ` set tr)"
    "distinct (map snd tr)"
    using call_trace[of x cm l "[]" "{}"] by blast
  have "set (map snd tr) = {n. (x, n) \<in> (edges cm)\<^sup>*}"
    using call_names[of x cm l "[]"] unfolding tr(1) by simp
  then have "n \<in> set (map snd tr) \<longleftrightarrow> (x, n) \<in> (edges cm)\<^sup>*" by blast
  then have "count_list (map snd tr) n = (if (x, n) \<in> (edges cm)\<^sup>* then 1 else 0)"
    using count_list_distinct_if[OF tr(2), of n] by simp
  then show ?thesis unfolding tr(1) by (simp add: line_name_fmt)
qed

lemma sum_list_reach:
  "sum_list (map (\<lambda>d. if P d then 1 else 0) ds) = length (filter P ds)"
  by (induction ds) auto

lemma map_concat_map: "map f (concat (map g xs)) = concat (map (\<lambda>x. map f (g x)) xs)"
  by (induction xs) simp_all

lemma count_domain_names:
  "count_list (map line_name (concat (map (\<lambda>d. fst (write_hierarchy d cm l ([], {}))) ds))) n
     = length (filter (\<lambda>d. (d, n) \<in> (edges cm)\<^sup>*) ds)"
  unfolding map_concat_map count_list_concat map_map comp_def count_call_name
  by (rule sum_list_reach)

lemma length_filter_sort: "length (filter P (sort xs)) = length (filter P xs)"
  by (simp add: filter_sort)

subsection \<open>Root finding on names without surrounding whitespace\<close>

lemma strip_Nil: "strip [] = []"
  by (simp add: strip_def)

lemma strip_unpadded:
  assumes "unpadded x"
  shows "strip x = x"
proof (cases "x = []")
  case True
  then show ?thesis by (simp add: strip_Nil)
next
  case False
  then have h: "\<not> is_space (hd x)" and l: "\<not> is_space (last x)"
    using assms by (simp_all add: unpadded_def)
  have "dropWhile is_space x = x" using False h by (cases x) simp_all
  then show ?thesis using strip_keeps(1)[OF False l] by simp
qed

lemma unpadded_lower: "unpadded s \<Longrightarrow> unpadded (lower s)"
  by (cases "s = []")
     (simp_all add: unpadded_def lower_def hd_map last_map is_space_lower_char)

lemma root_name_unpadded: "unpadded s \<Longrightarrow> root_name s = normalize s"
  by (simp add: root_name_def normalize_def strip_unpadded unpadded_lower)

lemma root_name_append_dots: "root_name (s @ replicate k CHR ''.'') = root_name s"
  by (simp add: root_name_def lower_append_dots rstrip_dots_append)

lemma find_root_records_eq:
  "find_root_records recs cm =
     sorted_list_of_set {n \<in> (\<lambda>r. root_name (rname r)) ` set recs. n \<notin> all_children cm}"
proof -
  have "{} \<union> (\<lambda>r. root_name (rname r)) ` {r \<in> set recs. root_name (rname r) \<notin> all_children cm}
      = {n \<in> (\<lambda>r. root_name (rname r)) ` set recs. n \<notin> all_children cm}"
    by auto
  then show ?thesis unfolding find_root_records_def fold_insert_if by simp
qed

lemma find_root_records_rkey:
  assumes pad: "\<forall>r\<in>set recs \<union> set recs'. unpadded (rname r)"
    and m: "map rkey recs = map rkey recs'"
  shows "find_root_records recs cm = find_root_records recs' cm"
proof -
  have "map (\<lambda>r. normalize (rname r)) recs = map (\<lambda>r. normalize (rname r)) recs'"
    using arg_cong[OF m, of "map fst"] by (simp add: rkey_def comp_def)
  then have n: "(\<lambda>r. normalize (rname r)) ` set recs = (\<lambda>r. normalize (rname r)) ` set recs'"
    by (metis set_map)
  have "(\<lambda>r. root_name (rname r)) ` set recs = (\<lambda>r. normalize (rname r)) ` set recs"
    using pad by (intro image_cong) (simp_all add: root_name_unpadded)
  moreover have "(\<lambda>r. root_name (rname r)) ` set recs' = (\<lambda>r. normalize (rname r)) ` set recs'"
    using pad by (intro image_cong) (simp_all add: root_name_unpadded)
  ultimately have "(\<lambda>r. root_name (rname r)) ` set recs = (\<lambda>r. root_name (rname r)) ` set recs'"
    using n by simp
  then show ?thesis unfolding find_root_records_eq by simp
qed

lemma generate_mindmap_rkey:
  assumes pad: "\<forall>r\<in>set recs \<union> set recs'. unpadded (rname r)"
    and m: "map rkey recs = map rkey recs'"
  shows "generate_mindmap recs = generate_mindmap recs'"
proof -
  have "map (\<lambda>r. normalize (rname r)) recs = map (\<lambda>r. normalize (rname r)) recs'"
    using arg_cong[OF m, of "map fst"] by (simp add: rkey_def comp_def)
  then have "(\<lambda>r. normalize (rname r)) ` set recs = (\<lambda>r. normalize (rname r)) ` set recs'"
    by (metis set_map)
  then have k: "keys (build_record_map recs) = keys (build_record_map recs')"
    by (simp add: keys_build_record_map)
  have cm: "fst (build_hierarchy recs) = fst (build_hierarchy recs')"
    unfolding build_hierarchy_def Let_def fst_conv using m k by (rule fold_build_step_rkey)
  have rr: "reroot recs c = reroot recs' c" for c
    unfolding reroot_def using m by (rule fold_reroot_step_rkey)
  have fr: "find_root_records recs c = find_root_records recs' c" for c
    using pad m by (rule find_root_records_rkey)
  have roots: "final_roots recs c x = final_roots recs' c x" for c x
    unfolding final_roots_def fr ..
  show ?thesis unfolding generate_mindmap_def cm rr roots ..
qed

section \<open>Properties\<close>

subsection \<open>Root correctness on the example of the specification\<close>


subsection \<open>MX records\<close>

text \<open>
  Claim C5. For a record of type MX: when its normalized content splits into at least two
  tokens, the loop body adds the edge from the normalized second token to the normalized
  name when that token is a key of the record map and leaves the children map unchanged
  otherwise, and for a record of the list the edge is in the children map that
  \<^verbatim>\<open>build_hierarchy\<close> returns if and only if the token is a key of the record map. With
  fewer than two tokens the loop body leaves the children map unchanged. The model has no
  error branch: the index 1 is read only under the length test.
\<close>

theorem mx_edge:
  assumes "rtype r = ''MX''"
  shows "(2 \<le> length (split (normalize (get_content r))) \<longrightarrow>
            build_step rm r cm =
              (if normalize (split (normalize (get_content r)) ! 1) \<in> keys rm
               then add_child (normalize (split (normalize (get_content r)) ! 1))
                      (normalize (rname r)) cm
               else cm)
          \<and> edges (add_child (normalize (split (normalize (get_content r)) ! 1))
                      (normalize (rname r)) cm)
              = insert (normalize (split (normalize (get_content r)) ! 1), normalize (rname r))
                  (edges cm)
          \<and> (r \<in> set recs \<longrightarrow>
               ((normalize (split (normalize (get_content r)) ! 1), normalize (rname r))
                   \<in> edges (fst (build_hierarchy recs))
                \<longleftrightarrow> normalize (split (normalize (get_content r)) ! 1)
                      \<in> keys (snd (build_hierarchy recs)))))
       \<and> (length (split (normalize (get_content r))) < 2 \<longrightarrow> build_step rm r cm = cm)"
proof (intro conjI impI)
  assume len: "2 \<le> length (split (normalize (get_content r)))"
  then have tok: "normalize (split (normalize (get_content r)) ! 1)
      = rstrip_dots (strip (split (normalize (get_content r)) ! 1))"
    by (intro token_of_normalized) simp
  have ne: "normalize (get_content r) \<noteq> []" using len by auto
  show "build_step rm r cm =
      (if normalize (split (normalize (get_content r)) ! 1) \<in> keys rm
       then add_child (normalize (split (normalize (get_content r)) ! 1)) (normalize (rname r)) cm
       else cm)"
    unfolding tok using assms len ne by (simp add: build_step_def Let_def)
  show "edges (add_child (normalize (split (normalize (get_content r)) ! 1)) (normalize (rname r)) cm)
      = insert (normalize (split (normalize (get_content r)) ! 1), normalize (rname r)) (edges cm)"
    by (rule edges_add_child)
  have e: "edge_of K r =
      (if rstrip_dots (strip (split (normalize (get_content r)) ! 1)) \<in> K
       then Some (rstrip_dots (strip (split (normalize (get_content r)) ! 1)), normalize (rname r))
       else None)" for K
    using assms len ne by (simp add: edge_of_def Let_def)
  {
    assume mem: "r \<in> set recs"
    let ?K = "(\<lambda>r. normalize (rname r)) ` set recs"
    have k: "keys (snd (build_hierarchy recs)) = ?K"
      by (simp add: build_hierarchy_def Let_def keys_build_record_map)
    show "((normalize (split (normalize (get_content r)) ! 1), normalize (rname r))
             \<in> edges (fst (build_hierarchy recs)))
          = (normalize (split (normalize (get_content r)) ! 1) \<in> keys (snd (build_hierarchy recs)))"
    proof
      assume "(normalize (split (normalize (get_content r)) ! 1), normalize (rname r))
                \<in> edges (fst (build_hierarchy recs))"
      then obtain r' where "edge_of ?K r' =
          Some (normalize (split (normalize (get_content r)) ! 1), normalize (rname r))"
        by (auto simp: edges_build_hierarchy)
      then show "normalize (split (normalize (get_content r)) ! 1) \<in> keys (snd (build_hierarchy recs))"
        unfolding k by (rule edge_parent_known)
    next
      assume "normalize (split (normalize (get_content r)) ! 1) \<in> keys (snd (build_hierarchy recs))"
      then have "edge_of ?K r =
          Some (normalize (split (normalize (get_content r)) ! 1), normalize (rname r))"
        unfolding k tok by (simp add: e)
      then show "(normalize (split (normalize (get_content r)) ! 1), normalize (rname r))
                \<in> edges (fst (build_hierarchy recs))"
        unfolding edges_build_hierarchy using mem by force
    qed
  }
next
  assume "length (split (normalize (get_content r))) < 2"
  then show "build_step rm r cm = cm"
    using assms by (simp add: build_step_def Let_def)
qed

theorem mx_edge_witness:
  "rtype \<lparr>rname = ''Example.com.'', rtype = ''MX'', rcontent = Some ''10 Mail.Example.com.''\<rparr> = ''MX''
   \<and> 2 \<le> length (split (normalize (get_content
         \<lparr>rname = ''Example.com.'', rtype = ''MX'', rcontent = Some ''10 Mail.Example.com.''\<rparr>)))
   \<and> ''mail.example.com'' \<in> keys (snd (build_hierarchy
         [\<lparr>rname = ''Example.com.'', rtype = ''MX'', rcontent = Some ''10 Mail.Example.com.''\<rparr>,
          \<lparr>rname = ''mail.example.com'', rtype = ''A'', rcontent = Some ''1.2.3.4''\<rparr>]))
   \<and> (''mail.example.com'', ''example.com'') \<in> edges (fst (build_hierarchy
         [\<lparr>rname = ''Example.com.'', rtype = ''MX'', rcontent = Some ''10 Mail.Example.com.''\<rparr>,
          \<lparr>rname = ''mail.example.com'', rtype = ''A'', rcontent = Some ''1.2.3.4''\<rparr>]))
   \<and> length (split (normalize (get_content
         \<lparr>rname = ''example.com'', rtype = ''MX'', rcontent = Some ''10''\<rparr>))) < 2
   \<and> build_step [(''example.com'', \<lparr>rname = ''example.com'', rtype = ''MX'', rcontent = Some ''10''\<rparr>)]
        \<lparr>rname = ''example.com'', rtype = ''MX'', rcontent = Some ''10''\<rparr> [] = []"
proof -
  let ?r = "\<lparr>rname = ''Example.com.'', rtype = ''MX'', rcontent = Some ''10 Mail.Example.com.''\<rparr>"
  let ?recs = "[?r, \<lparr>rname = ''mail.example.com'', rtype = ''A'', rcontent = Some ''1.2.3.4''\<rparr>]"
  let ?q = "\<lparr>rname = ''example.com'', rtype = ''MX'', rcontent = Some ''10''\<rparr>"
  have t: "rtype ?r = ''MX''" by simp
  have len: "2 \<le> length (split (normalize (get_content ?r)))" by code_simp
  have tok: "normalize (split (normalize (get_content ?r)) ! 1) = ''mail.example.com''" by code_simp
  have nm: "normalize (rname ?r) = ''example.com''" by code_simp
  have k: "''mail.example.com'' \<in> keys (snd (build_hierarchy ?recs))" by code_simp
  have mem: "?r \<in> set ?recs" by simp
  have "(normalize (split (normalize (get_content ?r)) ! 1), normalize (rname ?r))
          \<in> edges (fst (build_hierarchy ?recs))
        \<longleftrightarrow> normalize (split (normalize (get_content ?r)) ! 1) \<in> keys (snd (build_hierarchy ?recs))"
    by (rule mx_edge[OF t, of "[]" "[]" ?recs, THEN conjunct1, THEN mp, OF len,
          THEN conjunct2, THEN conjunct2, THEN mp, OF mem])
  then have e: "(''mail.example.com'', ''example.com'') \<in> edges (fst (build_hierarchy ?recs))"
    unfolding tok nm using k by simp
  have t2: "rtype ?q = ''MX''" by simp
  have len2: "length (split (normalize (get_content ?q))) < 2" by code_simp
  have s: "build_step [(''example.com'', ?q)] ?q [] = []"
    by (rule mx_edge[OF t2, of "[(''example.com'', ?q)]" "[]" "[]", THEN conjunct2, THEN mp, OF len2])
  show ?thesis by (intro conjI t len k e len2 s)
qed

subsection \<open>Idempotence of edge insertion\<close>

text \<open>
  Claim C6. Building the hierarchy from the list with every record doubled in place, or
  from the list followed by itself, gives the same children map as building it from the
  list. Adding a pair a second time changes nothing, and in the children map that
  \<^verbatim>\<open>build_hierarchy\<close> returns no key occurs twice and no child occurs twice under a
  key.
\<close>

theorem edge_insertion_idempotent:
  "fst (build_hierarchy (concat (map (\<lambda>r. [r, r]) recs))) = fst (build_hierarchy recs)
   \<and> fst (build_hierarchy (recs @ recs)) = fst (build_hierarchy recs)
   \<and> add_child p c (add_child p c cm) = add_child p c cm
   \<and> distinct (map fst (fst (build_hierarchy recs)))
   \<and> (\<forall>(parent, children) \<in> set (fst (build_hierarchy recs)). distinct children)"
proof (intro conjI)
  let ?dup = "concat (map (\<lambda>r. [r, r]) recs)"
  have k1: "keys (build_record_map ?dup) = keys (build_record_map recs)"
    unfolding keys_build_record_map by auto
  have "fold (build_step (build_record_map ?dup)) ?dup []
      = fold (build_step (build_record_map recs)) ?dup []"
    using k1 by (rule fold_build_step_cong)
  also have "\<dots> = fold (build_step (build_record_map recs)) recs []"
    by (rule fold_build_step_doubled)
  finally show "fst (build_hierarchy ?dup) = fst (build_hierarchy recs)"
    unfolding build_hierarchy_def Let_def fst_conv .
  have k2: "keys (build_record_map (recs @ recs)) = keys (build_record_map recs)"
    unfolding keys_build_record_map by auto
  have "fold (build_step (build_record_map (recs @ recs))) (recs @ recs) []
      = fold (build_step (build_record_map recs)) (recs @ recs) []"
    using k2 by (rule fold_build_step_cong)
  also have "\<dots> = fold (build_step (build_record_map recs)) recs
                        (fold (build_step (build_record_map recs)) recs [])"
    by simp
  also have "\<dots> = fold (build_step (build_record_map recs)) recs []"
    by (rule fold_build_step_again)
  finally show "fst (build_hierarchy (recs @ recs)) = fst (build_hierarchy recs)"
    unfolding build_hierarchy_def Let_def fst_conv .
  show "add_child p c (add_child p c cm) = add_child p c cm"
    by (rule add_child_idem)
  have cd: "children_distinct (fst (build_hierarchy recs))"
    by (rule children_distinct_build_hierarchy)
  then show "distinct (map fst (fst (build_hierarchy recs)))"
    by (simp add: children_distinct_def)
  show "\<forall>(parent, children) \<in> set (fst (build_hierarchy recs)). distinct children"
    using cd by (simp add: children_distinct_def list_all_iff)
qed

theorem edge_insertion_idempotent_witness:
  "(''example.com'', [''www''])
      \<in> set (fst (build_hierarchy
           [\<lparr>rname = ''www'', rtype = ''CNAME'', rcontent = Some ''example.com''\<rparr>,
            \<lparr>rname = ''example.com'', rtype = ''A'', rcontent = Some ''1.2.3.4''\<rparr>]))
   \<and> distinct [''www'']
   \<and> fst (build_hierarchy
        ([\<lparr>rname = ''www'', rtype = ''CNAME'', rcontent = Some ''example.com''\<rparr>,
          \<lparr>rname = ''example.com'', rtype = ''A'', rcontent = Some ''1.2.3.4''\<rparr>] @
         [\<lparr>rname = ''www'', rtype = ''CNAME'', rcontent = Some ''example.com''\<rparr>,
          \<lparr>rname = ''example.com'', rtype = ''A'', rcontent = Some ''1.2.3.4''\<rparr>]))
     = [(''example.com'', [''www''])]"
proof -
  let ?recs = "[\<lparr>rname = ''www'', rtype = ''CNAME'', rcontent = Some ''example.com''\<rparr>,
            \<lparr>rname = ''example.com'', rtype = ''A'', rcontent = Some ''1.2.3.4''\<rparr>]"
  have v: "fst (build_hierarchy ?recs) = [(''example.com'', [''www''])]"
    by code_simp
  note t = edge_insertion_idempotent[of ?recs "''example.com''" "''www''" "[]"]
  have "\<forall>(parent, children) \<in> set (fst (build_hierarchy ?recs)). distinct children"
    by (rule t[THEN conjunct2, THEN conjunct2, THEN conjunct2, THEN conjunct2])
  then have d: "distinct [''www'']" unfolding v by simp
  have "fst (build_hierarchy (?recs @ ?recs)) = fst (build_hierarchy ?recs)"
    by (rule t[THEN conjunct2, THEN conjunct1])
  then have a: "fst (build_hierarchy (?recs @ ?recs)) = [(''example.com'', [''www''])]"
    unfolding v .
  have m: "(''example.com'', [''www'']) \<in> set (fst (build_hierarchy ?recs))"
    unfolding v by simp
  show ?thesis by (intro conjI m d a)
qed

subsection \<open>Termination and the bound on the work of one call\<close>



subsection \<open>The visited set of the render loop\<close>

text \<open>
  The claim C1 as it is stated fails: with two roots \<^verbatim>\<open>a\<close> and \<^verbatim>\<open>b\<close> and a name
  \<^verbatim>\<open>c\<close> that is a child of both, \<^verbatim>\<open>c\<close> is written under \<^verbatim>\<open>a\<close> and again under
  \<^verbatim>\<open>b\<close>.
\<close>

theorem shared_visited_counterexample:
  "fst (build_hierarchy
     [\<lparr>rname = ''a'', rtype = ''TXT'', rcontent = Some ''x''\<rparr>,
      \<lparr>rname = ''b'', rtype = ''TXT'', rcontent = Some ''y''\<rparr>,
      \<lparr>rname = ''c'', rtype = ''MX'', rcontent = Some ''10 a''\<rparr>,
      \<lparr>rname = ''c'', rtype = ''MX'', rcontent = Some ''20 b''\<rparr>])
     = [(''a'', [''c'']), (''b'', [''c''])]
   \<and> generate_mindmap
     [\<lparr>rname = ''a'', rtype = ''TXT'', rcontent = Some ''x''\<rparr>,
      \<lparr>rname = ''b'', rtype = ''TXT'', rcontent = Some ''y''\<rparr>,
      \<lparr>rname = ''c'', rtype = ''MX'', rcontent = Some ''10 a''\<rparr>,
      \<lparr>rname = ''c'', rtype = ''MX'', rcontent = Some ''20 b''\<rparr>]
     = [''# DNS Record Hierarchy'', [],
        line 0 ''a'', line 1 ''c'', line 0 ''b'', line 1 ''c'']"
  by code_simp

text \<open>
  Claim C1, amended. The visited set is not shared across the render pass. The output is the
  title, the blank line and then one block per final root. The block of a final root that is
  not a key of \<^verbatim>\<open>ip_parent_map\<close> is one call of \<^verbatim>\<open>write_hierarchy\<close> on the root at
  depth 0; the block of a key of \<^verbatim>\<open>ip_parent_map\<close> is the line of the key and then one
  call at depth 1 for each of its domains, in sorted order. Every one of these calls starts
  from an empty visited set and writes each name that is reachable from its start name through
  children exactly once, and no other name. So the block of a root that is not a key holds a
  name once if the name is reachable from the root and not at all otherwise, and the block of
  a key holds a name once for each domain (counted as often as it is listed) from which the
  name is reachable, plus once if the name is the key itself: a name reachable from two
  starting points is written under each of them. The children of a key's own name are not
  visited from the key.
\<close>

theorem fresh_visited_per_call:
  "generate_mindmap recs =
     [''# DNS Record Hierarchy'', []] @
     concat (map (\<lambda>r. write_root (fst (build_hierarchy recs))
                          (fst (reroot recs (fst (build_hierarchy recs)))) r [])
               (final_roots recs (fst (build_hierarchy recs))
                  (reroot recs (fst (build_hierarchy recs)))))
   \<and> (map_of ipm root = None \<longrightarrow>
        write_root cm ipm root [] = fst (write_hierarchy root cm 0 ([], {}))
        \<and> count_list (map line_name (write_root cm ipm root [])) n
            = (if (root, n) \<in> (edges cm)\<^sup>* then 1 else 0))
   \<and> (map_of ipm root = Some ds \<longrightarrow>
        write_root cm ipm root [] =
          line 0 root # concat (map (\<lambda>d. fst (write_hierarchy d cm 1 ([], {}))) (sort ds))
        \<and> count_list (map line_name (write_root cm ipm root [])) n
            = (if n = root then 1 else 0) + length (filter (\<lambda>d. (d, n) \<in> (edges cm)\<^sup>*) ds))
   \<and> count_list (map line_name (fst (write_hierarchy x cm l ([], {})))) n
        = (if (x, n) \<in> (edges cm)\<^sup>* then 1 else 0)
   \<and> distinct (map line_name (drop (length out) (fst (write_hierarchy name cm level (out, {})))))"
proof (intro conjI impI)
  show "generate_mindmap recs =
     [''# DNS Record Hierarchy'', []] @
     concat (map (\<lambda>r. write_root (fst (build_hierarchy recs))
                          (fst (reroot recs (fst (build_hierarchy recs)))) r [])
               (final_roots recs (fst (build_hierarchy recs))
                  (reroot recs (fst (build_hierarchy recs)))))"
    by (rule generate_mindmap_blocks)
  show c: "count_list (map line_name (fst (write_hierarchy x cm l ([], {})))) n
        = (if (x, n) \<in> (edges cm)\<^sup>* then 1 else 0)"
    by (rule count_call_name)
  {
    assume a: "map_of ipm root = None"
    show b: "write_root cm ipm root [] = fst (write_hierarchy root cm 0 ([], {}))"
      unfolding write_root_blocks[of cm ipm root "[]"] using a
      by (simp del: write_hierarchy.simps)
    show "count_list (map line_name (write_root cm ipm root [])) n
            = (if (root, n) \<in> (edges cm)\<^sup>* then 1 else 0)"
      unfolding b by (rule count_call_name)
  }
  {
    assume a: "map_of ipm root = Some ds"
    show b: "write_root cm ipm root [] =
          line 0 root # concat (map (\<lambda>d. fst (write_hierarchy d cm 1 ([], {}))) (sort ds))"
      unfolding write_root_blocks[of cm ipm root "[]"] using a
      by (simp del: write_hierarchy.simps)
    have "count_list (map line_name (write_root cm ipm root [])) n
        = (if root = n then 1 else 0)
          + count_list (map line_name
              (concat (map (\<lambda>d. fst (write_hierarchy d cm 1 ([], {}))) (sort ds)))) n"
      unfolding b by (simp del: write_hierarchy.simps)
    also have "\<dots> = (if root = n then 1 else 0)
        + length (filter (\<lambda>d. (d, n) \<in> (edges cm)\<^sup>*) (sort ds))"
      unfolding count_domain_names ..
    finally show "count_list (map line_name (write_root cm ipm root [])) n
            = (if n = root then 1 else 0) + length (filter (\<lambda>d. (d, n) \<in> (edges cm)\<^sup>*) ds)"
      unfolding length_filter_sort by auto
  }
  obtain tr where tr: "write_hierarchy name cm level (out, {}) = (out @ fmt tr, {} \<union> snd ` set tr)"
      "distinct (map snd tr)"
    using call_trace[of name cm level out "{}"] by blast
  show "distinct (map line_name (drop (length out) (fst (write_hierarchy name cm level (out, {})))))"
    unfolding tr(1) using tr(2) by (simp add: line_name_fmt)
qed

theorem fresh_visited_per_call_witness:
  "map_of [(''1.1.1.1'', [''a'', ''b''])] ''1.1.1.1'' = Some [''a'', ''b'']
   \<and> count_list (map line_name
         (write_root [(''a'', [''c'']), (''b'', [''c''])] [(''1.1.1.1'', [''a'', ''b''])]
            ''1.1.1.1'' [])) ''c'' = 2
   \<and> map_of ([] :: ip_parent_map) ''a'' = None
   \<and> count_list (map line_name (write_root [(''a'', [''c'']), (''b'', [''c''])] [] ''a'' [])) ''c'' = 1
   \<and> count_list (map line_name (write_root [(''a'', [''c'']), (''b'', [''c''])] [] ''c'' [])) ''a'' = 0
   \<and> generate_mindmap
        [\<lparr>rname = ''a'', rtype = ''A'', rcontent = Some ''1.1.1.1''\<rparr>,
         \<lparr>rname = ''b'', rtype = ''A'', rcontent = Some ''1.1.1.1''\<rparr>,
         \<lparr>rname = ''c'', rtype = ''MX'', rcontent = Some ''10 a''\<rparr>,
         \<lparr>rname = ''c'', rtype = ''MX'', rcontent = Some ''20 b''\<rparr>]
     = [''# DNS Record Hierarchy'', [],
        line 0 ''1.1.1.1'', line 1 ''a'', line 2 ''c'', line 1 ''b'', line 2 ''c'']
   \<and> map_of [(''y'', [''x''])] ''y'' = Some [''x'']
   \<and> count_list (map line_name
         (write_root [(''y'', [''z'']), (''w'', [''z''])] [(''y'', [''x''])] ''y'' [])) ''z'' = 0
   \<and> generate_mindmap
        [\<lparr>rname = ''x'', rtype = ''A'', rcontent = Some ''y''\<rparr>,
         \<lparr>rname = ''y'', rtype = ''TXT'', rcontent = Some ''t''\<rparr>,
         \<lparr>rname = ''w'', rtype = ''TXT'', rcontent = Some ''t''\<rparr>,
         \<lparr>rname = ''z'', rtype = ''MX'', rcontent = Some ''10 y''\<rparr>,
         \<lparr>rname = ''z'', rtype = ''MX'', rcontent = Some ''20 w''\<rparr>]
     = [''# DNS Record Hierarchy'', [],
        line 0 ''w'', line 1 ''z'', line 0 ''y'', line 1 ''x'']"
proof -
  let ?cm = "[(''a'', [''c'']), (''b'', [''c''])]"
  let ?ipm = "[(''1.1.1.1'', [''a'', ''b''])]"
  have s: "map_of ?ipm ''1.1.1.1'' = Some [''a'', ''b'']" by simp
  have n1: "map_of ([] :: ip_parent_map) ''a'' = None" by simp
  have n3: "map_of ([] :: ip_parent_map) ''c'' = None" by simp
  have "(''a'', ''c'') \<in> edges ?cm" by (simp add: edges_def)
  then have r1: "(''a'', ''c'') \<in> (edges ?cm)\<^sup>*" by (rule r_into_rtrancl)
  have "(''b'', ''c'') \<in> edges ?cm" by (simp add: edges_def)
  then have r2: "(''b'', ''c'') \<in> (edges ?cm)\<^sup>*" by (rule r_into_rtrancl)
  have r3: "(''c'', ''a'') \<notin> (edges ?cm)\<^sup>*"
  proof
    assume "(''c'', ''a'') \<in> (edges ?cm)\<^sup>*"
    then show False
      by (cases rule: converse_rtranclE) (auto simp: edges_def split: if_splits)
  qed
  have "count_list (map line_name (write_root ?cm ?ipm ''1.1.1.1'' [])) ''c''
      = (if ''c'' = ''1.1.1.1'' then 1 else 0)
        + length (filter (\<lambda>d. (d, ''c'') \<in> (edges ?cm)\<^sup>*) [''a'', ''b''])"
    by (rule fresh_visited_per_call[of "[]" ?ipm "''1.1.1.1''" ?cm "''c''" "[''a'', ''b'']"
          "''a''" 0 "[]" "''a''" 0,
          THEN conjunct2, THEN conjunct2, THEN conjunct1, THEN mp, OF s, THEN conjunct2])
  then have c2: "count_list (map line_name (write_root ?cm ?ipm ''1.1.1.1'' [])) ''c'' = 2"
    using r1 r2 by simp
  have "count_list (map line_name (write_root ?cm [] ''a'' [])) ''c''
      = (if (''a'', ''c'') \<in> (edges ?cm)\<^sup>* then 1 else 0)"
    by (rule fresh_visited_per_call[of "[]" "[]" "''a''" ?cm "''c''" "[]"
          "''a''" 0 "[]" "''a''" 0,
          THEN conjunct2, THEN conjunct1, THEN mp, OF n1, THEN conjunct2])
  then have c1: "count_list (map line_name (write_root ?cm [] ''a'' [])) ''c'' = 1"
    using r1 by simp
  have "count_list (map line_name (write_root ?cm [] ''c'' [])) ''a''
      = (if (''c'', ''a'') \<in> (edges ?cm)\<^sup>* then 1 else 0)"
    by (rule fresh_visited_per_call[of "[]" "[]" "''c''" ?cm "''a''" "[]"
          "''a''" 0 "[]" "''a''" 0,
          THEN conjunct2, THEN conjunct1, THEN mp, OF n3, THEN conjunct2])
  then have c0: "count_list (map line_name (write_root ?cm [] ''c'' [])) ''a'' = 0"
    using r3 by simp
  have g: "generate_mindmap
        [\<lparr>rname = ''a'', rtype = ''A'', rcontent = Some ''1.1.1.1''\<rparr>,
         \<lparr>rname = ''b'', rtype = ''A'', rcontent = Some ''1.1.1.1''\<rparr>,
         \<lparr>rname = ''c'', rtype = ''MX'', rcontent = Some ''10 a''\<rparr>,
         \<lparr>rname = ''c'', rtype = ''MX'', rcontent = Some ''20 b''\<rparr>]
     = [''# DNS Record Hierarchy'', [],
        line 0 ''1.1.1.1'', line 1 ''a'', line 2 ''c'', line 1 ''b'', line 2 ''c'']"
    by code_simp
  let ?cm2 = "[(''y'', [''z'']), (''w'', [''z''])]"
  let ?ipm2 = "[(''y'', [''x''])]"
  have s2: "map_of ?ipm2 ''y'' = Some [''x'']" by simp
  have r4: "(''x'', ''z'') \<notin> (edges ?cm2)\<^sup>*"
  proof
    assume "(''x'', ''z'') \<in> (edges ?cm2)\<^sup>*"
    then show False
      by (cases rule: converse_rtranclE) (auto simp: edges_def split: if_splits)
  qed
  have "count_list (map line_name (write_root ?cm2 ?ipm2 ''y'' [])) ''z''
      = (if ''z'' = ''y'' then 1 else 0)
        + length (filter (\<lambda>d. (d, ''z'') \<in> (edges ?cm2)\<^sup>*) [''x''])"
    by (rule fresh_visited_per_call[of "[]" ?ipm2 "''y''" ?cm2 "''z''" "[''x'']"
          "''a''" 0 "[]" "''a''" 0,
          THEN conjunct2, THEN conjunct2, THEN conjunct1, THEN mp, OF s2, THEN conjunct2])
  then have c3: "count_list (map line_name (write_root ?cm2 ?ipm2 ''y'' [])) ''z'' = 0"
    using r4 by simp
  have g2: "generate_mindmap
        [\<lparr>rname = ''x'', rtype = ''A'', rcontent = Some ''y''\<rparr>,
         \<lparr>rname = ''y'', rtype = ''TXT'', rcontent = Some ''t''\<rparr>,
         \<lparr>rname = ''w'', rtype = ''TXT'', rcontent = Some ''t''\<rparr>,
         \<lparr>rname = ''z'', rtype = ''MX'', rcontent = Some ''10 y''\<rparr>,
         \<lparr>rname = ''z'', rtype = ''MX'', rcontent = Some ''20 w''\<rparr>]
     = [''# DNS Record Hierarchy'', [],
        line 0 ''w'', line 1 ''z'', line 0 ''y'', line 1 ''x'']"
    by code_simp
  show ?thesis by (intro conjI s c2 n1 c1 c0 g s2 c3 g2)
qed

subsection \<open>Duplicate root records\<close>

text \<open>
  Claim C10. When the list holds, at two positions, records of a re-rooted type with the same
  normalized name, which is a root, and the same non-empty normalized content, the name is
  registered at least twice under that content in \<^verbatim>\<open>ip_parent_map\<close> (the loop appends
  without looking for a duplicate), the content is a final root, and the block of that root
  holds the line of the name at depth 1 as many times as the name is registered: every call
  at depth 1 starts from an empty visited set.
\<close>

theorem duplicate_root_records:
  assumes "recs = xs @ r1 # ys @ r2 # zs"
    and "normalize (rname r1) = n" "normalize (rname r2) = n"
    and "normalize (get_content r1) = c" "normalize (get_content r2) = c" "c \<noteq> []"
    and "rtype r1 \<in> set [''A'', ''AAAA'', ''CNAME'', ''ALIAS'', ''DNAME'']"
    and "rtype r2 \<in> set [''A'', ''AAAA'', ''CNAME'', ''ALIAS'', ''DNAME'']"
    and "is_root (fst (build_hierarchy recs)) n"
  shows "\<exists>ds. map_of (fst (reroot recs (fst (build_hierarchy recs)))) c = Some ds
           \<and> 2 \<le> count_list ds n
           \<and> c \<in> set (final_roots recs (fst (build_hierarchy recs))
                         (reroot recs (fst (build_hierarchy recs))))
           \<and> count_list (write_root (fst (build_hierarchy recs))
                            (fst (reroot recs (fst (build_hierarchy recs)))) c [])
                 (line 1 n) = count_list ds n"
proof -
  let ?cm = "fst (build_hierarchy recs)"
  let ?Q = "\<lambda>r. rerootable ?cm r \<and> normalize (get_content r) = c"
  have q1: "?Q r1" and q2: "?Q r2" using assms by (simp_all add: rerootable_def)
  let ?ds = "domains_of ?cm recs c"
  have "?ds = domains_of ?cm (xs @ r1 # ys @ r2 # zs) c"
    using assms(1) by simp
  also have "\<dots> = domains_of ?cm xs c @ n # domains_of ?cm ys c @ n # domains_of ?cm zs c"
    using q1 q2 assms(2,3) by (simp add: domains_of_append domains_of_Cons)
  finally have ds: "?ds = domains_of ?cm xs c @ n # domains_of ?cm ys c @ n # domains_of ?cm zs c" .
  then have ne: "?ds \<noteq> []" by simp
  have m: "map_of (fst (reroot recs ?cm)) c = Some ?ds"
    using ne by (simp add: map_of_reroot)
  have cnt: "2 \<le> count_list ?ds n" unfolding ds by simp
  have "c \<in> keys (fst (reroot recs ?cm))"
    using m by (rule map_of_keys)
  then have r: "c \<in> set (final_roots recs ?cm (reroot recs ?cm))"
    by (simp add: final_roots_set)
  have b: "count_list (write_root ?cm (fst (reroot recs ?cm)) c []) (line 1 n) = count_list ?ds n"
    using m by (rule count_synthetic_block)
  show ?thesis using m cnt r b by blast
qed

theorem duplicate_root_records_witness:
  "map_of (fst (reroot
       [\<lparr>rname = ''example.com'', rtype = ''A'', rcontent = Some ''1.2.3.4''\<rparr>,
        \<lparr>rname = ''example.com'', rtype = ''A'', rcontent = Some ''1.2.3.4''\<rparr>]
       (fst (build_hierarchy
         [\<lparr>rname = ''example.com'', rtype = ''A'', rcontent = Some ''1.2.3.4''\<rparr>,
          \<lparr>rname = ''example.com'', rtype = ''A'', rcontent = Some ''1.2.3.4''\<rparr>]))))
     ''1.2.3.4'' = Some [''example.com'', ''example.com'']
   \<and> count_list (write_root
        (fst (build_hierarchy
          [\<lparr>rname = ''example.com'', rtype = ''A'', rcontent = Some ''1.2.3.4''\<rparr>,
           \<lparr>rname = ''example.com'', rtype = ''A'', rcontent = Some ''1.2.3.4''\<rparr>]))
        (fst (reroot
          [\<lparr>rname = ''example.com'', rtype = ''A'', rcontent = Some ''1.2.3.4''\<rparr>,
           \<lparr>rname = ''example.com'', rtype = ''A'', rcontent = Some ''1.2.3.4''\<rparr>]
          (fst (build_hierarchy
            [\<lparr>rname = ''example.com'', rtype = ''A'', rcontent = Some ''1.2.3.4''\<rparr>,
             \<lparr>rname = ''example.com'', rtype = ''A'', rcontent = Some ''1.2.3.4''\<rparr>]))))
        ''1.2.3.4'' []) (line 1 ''example.com'') = 2
   \<and> generate_mindmap
        [\<lparr>rname = ''example.com'', rtype = ''A'', rcontent = Some ''1.2.3.4''\<rparr>,
         \<lparr>rname = ''example.com'', rtype = ''A'', rcontent = Some ''1.2.3.4''\<rparr>]
     = [''# DNS Record Hierarchy'', [],
        line 0 ''1.2.3.4'', line 1 ''example.com'', line 1 ''example.com'']"
proof -
  let ?r = "\<lparr>rname = ''example.com'', rtype = ''A'', rcontent = Some ''1.2.3.4''\<rparr>"
  let ?recs = "[?r, ?r]"
  let ?cm = "fst (build_hierarchy ?recs)"
  have h1: "?recs = [] @ ?r # [] @ ?r # []" by simp
  have h2: "normalize (rname ?r) = ''example.com''" by code_simp
  have h3: "normalize (get_content ?r) = ''1.2.3.4''" by code_simp
  have h4: "''1.2.3.4'' \<noteq> []" by simp
  have h5: "rtype ?r \<in> set [''A'', ''AAAA'', ''CNAME'', ''ALIAS'', ''DNAME'']" by simp
  have h6: "is_root ?cm ''example.com''" by code_simp
  have v: "map_of (fst (reroot ?recs ?cm)) ''1.2.3.4'' = Some [''example.com'', ''example.com'']"
    by code_simp
  obtain ds where ds: "map_of (fst (reroot ?recs ?cm)) ''1.2.3.4'' = Some ds"
    "count_list (write_root ?cm (fst (reroot ?recs ?cm)) ''1.2.3.4'' []) (line 1 ''example.com'')
       = count_list ds ''example.com''"
    using duplicate_root_records[OF h1 h2 h2 h3 h3 h4 h5 h5 h6] by blast
  have "ds = [''example.com'', ''example.com'']" using ds(1) v by simp
  then have c: "count_list (write_root ?cm (fst (reroot ?recs ?cm)) ''1.2.3.4'' [])
      (line 1 ''example.com'') = 2"
    using ds(2) by simp
  have g: "generate_mindmap ?recs = [''# DNS Record Hierarchy'', [],
        line 0 ''1.2.3.4'', line 1 ''example.com'', line 1 ''example.com'']"
    by code_simp
  show ?thesis by (intro conjI v c g)
qed

subsection \<open>Self-referential records\<close>

text \<open>
  The claim C9 as it is stated fails in three ways. A self-referential CNAME whose name also
  carries an MX record that points at a known host is written under that host, although no
  other record points at it. A record whose name and content both normalize to the empty
  string is not its own child: it contributes no edge and is written as a root. And a
  self-referential record whose name carries a leading space is its own child under the
  stripped name, but \<^verbatim>\<open>find_root_records\<close> does not strip, so the unstripped name is a
  root and is written.
\<close>

theorem self_reference_counterexample:
  "generate_mindmap
     [\<lparr>rname = ''a.example.com'', rtype = ''CNAME'', rcontent = Some ''a.example.com''\<rparr>,
      \<lparr>rname = ''a.example.com'', rtype = ''MX'', rcontent = Some ''10 mail.example.com''\<rparr>,
      \<lparr>rname = ''mail.example.com'', rtype = ''TXT'', rcontent = Some ''v''\<rparr>]
     = [''# DNS Record Hierarchy'', [], line 0 ''mail.example.com'', line 1 ''a.example.com'']
   \<and> normalize (rname \<lparr>rname = ''.'', rtype = ''CNAME'', rcontent = Some ''.''\<rparr>)
       = normalize (get_content \<lparr>rname = ''.'', rtype = ''CNAME'', rcontent = Some ''.''\<rparr>)
   \<and> fst (build_hierarchy [\<lparr>rname = ''.'', rtype = ''CNAME'', rcontent = Some ''.''\<rparr>]) = []
   \<and> generate_mindmap [\<lparr>rname = ''.'', rtype = ''CNAME'', rcontent = Some ''.''\<rparr>]
       = [''# DNS Record Hierarchy'', [], line 0 []]
   \<and> fst (build_hierarchy [\<lparr>rname = '' self'', rtype = ''CNAME'', rcontent = Some ''self''\<rparr>])
       = [(''self'', [''self''])]
   \<and> find_root_records [\<lparr>rname = '' self'', rtype = ''CNAME'', rcontent = Some ''self''\<rparr>]
         [(''self'', [''self''])] = ['' self'']
   \<and> generate_mindmap [\<lparr>rname = '' self'', rtype = ''CNAME'', rcontent = Some ''self''\<rparr>]
       = [''# DNS Record Hierarchy'', [], line 0 '' self'']"
  by code_simp

text \<open>
  Claim C9, amended. Let a record of type CNAME, ALIAS or DNAME have the non-empty normalized
  name n as its normalized content, let its name carry no surrounding whitespace (so that
  \<^verbatim>\<open>find_root_records\<close> sees the name n too), let no record with a different normalized
  name have the normalized content n, and let n be a child of no parent but itself. Then n is
  its own child, the name of the record is not an initial root under either spelling, the
  record is not re-rooted, its name is not among the moved names nor a final root, and no
  line of the output is the line of its name at any depth.
\<close>

theorem self_reference_hidden:
  assumes "r \<in> set recs" "rtype r \<in> set [''CNAME'', ''ALIAS'', ''DNAME'']"
    and "normalize (rname r) = n" "normalize (get_content r) = n" "n \<noteq> []"
    and "\<forall>r'\<in>set recs. normalize (rname r') \<noteq> n \<longrightarrow> normalize (get_content r') \<noteq> n"
    and "\<forall>p. (p, n) \<in> edges (fst (build_hierarchy recs)) \<longrightarrow> p = n"
    and "root_name (rname r) = n"
  shows "(n, n) \<in> edges (fst (build_hierarchy recs))
       \<and> n \<notin> set (find_root_records recs (fst (build_hierarchy recs)))
       \<and> \<not> rerootable (fst (build_hierarchy recs)) r
       \<and> n \<notin> snd (reroot recs (fst (build_hierarchy recs)))
       \<and> n \<notin> set (final_roots recs (fst (build_hierarchy recs))
                      (reroot recs (fst (build_hierarchy recs))))
       \<and> (\<forall>d. line d n \<notin> set (generate_mindmap recs))
       \<and> root_name (rname r) \<notin> set (find_root_records recs (fst (build_hierarchy recs)))
       \<and> root_name (rname r) \<notin> set (final_roots recs (fst (build_hierarchy recs))
                      (reroot recs (fst (build_hierarchy recs))))
       \<and> (\<forall>d. line d (root_name (rname r)) \<notin> set (generate_mindmap recs))
       \<and> (\<forall>d. line d (normalize (rname r)) \<notin> set (generate_mindmap recs))"
proof -
  let ?cm = "fst (build_hierarchy recs)"
  let ?K = "(\<lambda>r. normalize (rname r)) ` set recs"
  let ?rr = "reroot recs ?cm"
  have "n \<in> ?K" using assms(1,3) by auto
  then have "edge_of ?K r = Some (n, n)"
    using assms(2-5) by (auto simp: edge_of_def Let_def)
  then have self: "(n, n) \<in> edges ?cm"
    unfolding edges_build_hierarchy using assms(1) by force
  have child: "n \<in> all_children ?cm"
    unfolding all_children_edges[OF distinct_keys_build_hierarchy] using self by force
  have nr: "n \<notin> set (find_root_records recs ?cm)"
    using child by (simp add: find_root_records_set)
  have named: "\<not> rerootable ?cm r'" if "normalize (rname r') = n" for r'
    using that child by (simp add: rerootable_def is_root_iff)
  have nrr: "\<not> rerootable ?cm r" using assms(3) by (rule named)
  have moved: "n \<notin> snd ?rr"
    unfolding snd_reroot using named by auto
  have key: "n \<notin> keys (fst ?rr)"
  proof
    assume "n \<in> keys (fst ?rr)"
    then obtain r' where r': "r' \<in> set recs" "rerootable ?cm r'" "normalize (get_content r') = n"
      unfolding keys_reroot by auto
    then have "normalize (rname r') \<noteq> n" using named by blast
    then show False using assms(6) r'(1,3) by blast
  qed
  have fr: "n \<notin> set (final_roots recs ?cm ?rr)"
    using nr key by (simp add: final_roots_set)
  have only: "\<forall>p cs. map_of ?cm p = Some cs \<and> n \<in> set cs \<longrightarrow> p = n"
    using assms(7) by (auto simp: edges_map_of)
  have nl: "line d n \<notin> set (generate_mindmap recs)" for d
  proof
    assume "line d n \<in> set (generate_mindmap recs)"
    then obtain root where root: "root \<in> set (final_roots recs ?cm ?rr)"
      "line d n \<in> set (write_root ?cm (fst ?rr) root [])"
      using generate_mindmap_line[of "line d n" recs] line_not_header[of d n] by blast
    have rn: "root \<noteq> n" using root(1) fr by blast
    show False
    proof (cases "map_of (fst ?rr) root")
      case None
      then have "line d n \<in> set (fst (write_hierarchy root ?cm 0 ([], {})))"
        using root(2) unfolding write_root_blocks[of ?cm "fst ?rr" root "[]"]
        by (simp del: write_hierarchy.simps)
      then show False using no_line_in_call[OF only rn] by blast
    next
      case (Some ds)
      then have dsq: "ds = domains_of ?cm recs root"
        by (simp add: map_of_reroot split: if_splits)
      from Some root(2) have "line d n = line 0 root \<or>
          (\<exists>x\<in>set ds. line d n \<in> set (fst (write_hierarchy x ?cm 1 ([], {}))))"
        unfolding write_root_blocks[of ?cm "fst ?rr" root "[]"]
        by (auto simp del: write_hierarchy.simps)
      then obtain x where x: "x \<in> set ds" "line d n \<in> set (fst (write_hierarchy x ?cm 1 ([], {})))"
        using rn by (auto simp: line_inject simp del: write_hierarchy.simps)
      have "x \<noteq> n" using x(1) named unfolding dsq domains_of_def by auto
      then show False using no_line_in_call[OF only] x(2) by blast
    qed
  qed
  have nr': "root_name (rname r) \<notin> set (find_root_records recs ?cm)"
    unfolding assms(8) by (rule nr)
  have fr': "root_name (rname r) \<notin> set (final_roots recs ?cm ?rr)"
    unfolding assms(8) by (rule fr)
  have nl': "line d (root_name (rname r)) \<notin> set (generate_mindmap recs)" for d
    unfolding assms(8) by (rule nl)
  have nl'': "line d (normalize (rname r)) \<notin> set (generate_mindmap recs)" for d
    unfolding assms(3) by (rule nl)
  show ?thesis using self nr nrr moved fr nl nr' fr' nl' nl'' by blast
qed

theorem self_reference_hidden_witness:
  "\<lparr>rname = ''self.example.com'', rtype = ''CNAME'', rcontent = Some ''Self.Example.com.''\<rparr>
     \<in> set [\<lparr>rname = ''self.example.com'', rtype = ''CNAME'', rcontent = Some ''Self.Example.com.''\<rparr>,
            \<lparr>rname = ''www.example.com'', rtype = ''A'', rcontent = Some ''1.2.3.4''\<rparr>]
   \<and> root_name (rname \<lparr>rname = ''self.example.com'', rtype = ''CNAME'',
                        rcontent = Some ''Self.Example.com.''\<rparr>) = ''self.example.com''
   \<and> (''self.example.com'', ''self.example.com'')
       \<in> edges (fst (build_hierarchy
            [\<lparr>rname = ''self.example.com'', rtype = ''CNAME'', rcontent = Some ''Self.Example.com.''\<rparr>,
             \<lparr>rname = ''www.example.com'', rtype = ''A'', rcontent = Some ''1.2.3.4''\<rparr>]))
   \<and> line 0 ''self.example.com'' \<notin> set (generate_mindmap
            [\<lparr>rname = ''self.example.com'', rtype = ''CNAME'', rcontent = Some ''Self.Example.com.''\<rparr>,
             \<lparr>rname = ''www.example.com'', rtype = ''A'', rcontent = Some ''1.2.3.4''\<rparr>])
   \<and> root_name (rname \<lparr>rname = ''self.example.com'', rtype = ''CNAME'',
                        rcontent = Some ''Self.Example.com.''\<rparr>)
       \<notin> set (find_root_records
            [\<lparr>rname = ''self.example.com'', rtype = ''CNAME'', rcontent = Some ''Self.Example.com.''\<rparr>,
             \<lparr>rname = ''www.example.com'', rtype = ''A'', rcontent = Some ''1.2.3.4''\<rparr>]
            (fst (build_hierarchy
              [\<lparr>rname = ''self.example.com'', rtype = ''CNAME'', rcontent = Some ''Self.Example.com.''\<rparr>,
               \<lparr>rname = ''www.example.com'', rtype = ''A'', rcontent = Some ''1.2.3.4''\<rparr>])))
   \<and> generate_mindmap
            [\<lparr>rname = ''self.example.com'', rtype = ''CNAME'', rcontent = Some ''Self.Example.com.''\<rparr>,
             \<lparr>rname = ''www.example.com'', rtype = ''A'', rcontent = Some ''1.2.3.4''\<rparr>]
       = [''# DNS Record Hierarchy'', [], line 0 ''1.2.3.4'', line 1 ''www.example.com'']"
proof -
  let ?r = "\<lparr>rname = ''self.example.com'', rtype = ''CNAME'', rcontent = Some ''Self.Example.com.''\<rparr>"
  let ?recs = "[?r, \<lparr>rname = ''www.example.com'', rtype = ''A'', rcontent = Some ''1.2.3.4''\<rparr>]"
  let ?n = "''self.example.com''"
  have h1: "?r \<in> set ?recs" by simp
  have h2: "rtype ?r \<in> set [''CNAME'', ''ALIAS'', ''DNAME'']" by simp
  have h3: "normalize (rname ?r) = ?n" by code_simp
  have h4: "normalize (get_content ?r) = ?n" by code_simp
  have h5: "?n \<noteq> []" by simp
  have h6: "\<forall>r'\<in>set ?recs. normalize (rname r') \<noteq> ?n \<longrightarrow> normalize (get_content r') \<noteq> ?n"
    by code_simp
  have v: "fst (build_hierarchy ?recs) = [(?n, [?n])]" by code_simp
  have h7: "\<forall>p. (p, ?n) \<in> edges (fst (build_hierarchy ?recs)) \<longrightarrow> p = ?n"
    unfolding v by (auto simp: edges_def split: if_splits)
  have h8: "root_name (rname ?r) = ?n" by code_simp
  note t = self_reference_hidden[OF h1 h2 h3 h4 h5 h6 h7 h8]
  have a: "(?n, ?n) \<in> edges (fst (build_hierarchy ?recs))"
    by (rule t[THEN conjunct1])
  have "\<forall>d. line d ?n \<notin> set (generate_mindmap ?recs)"
    by (rule t[THEN conjunct2, THEN conjunct2, THEN conjunct2, THEN conjunct2, THEN conjunct2,
          THEN conjunct1])
  then have b: "line 0 ?n \<notin> set (generate_mindmap ?recs)" by (rule spec)
  have c: "root_name (rname ?r) \<notin> set (find_root_records ?recs (fst (build_hierarchy ?recs)))"
    by (rule t[THEN conjunct2, THEN conjunct2, THEN conjunct2, THEN conjunct2, THEN conjunct2,
          THEN conjunct2, THEN conjunct1])
  have g: "generate_mindmap ?recs
      = [''# DNS Record Hierarchy'', [], line 0 ''1.2.3.4'', line 1 ''www.example.com'']"
    by code_simp
  show ?thesis by (intro conjI h1 h8 a b c g)
qed

subsection \<open>A cycle of two CNAME records\<close>

text \<open>
  The claim C2 as it is stated fails: for \<^verbatim>\<open>a CNAME b\<close> and \<^verbatim>\<open>b CNAME a\<close> each name
  is a child of the other, no name is a root, and the output is the title and the blank line
  only, with neither name on any line.
\<close>

theorem cycle_counterexample:
  "generate_mindmap
     [\<lparr>rname = ''a'', rtype = ''CNAME'', rcontent = Some ''b''\<rparr>,
      \<lparr>rname = ''b'', rtype = ''CNAME'', rcontent = Some ''a''\<rparr>]
     = [''# DNS Record Hierarchy'', []]
   \<and> fst (build_hierarchy
     [\<lparr>rname = ''a'', rtype = ''CNAME'', rcontent = Some ''b''\<rparr>,
      \<lparr>rname = ''b'', rtype = ''CNAME'', rcontent = Some ''a''\<rparr>])
     = [(''b'', [''a'']), (''a'', [''b''])]
   \<and> find_root_records
     [\<lparr>rname = ''a'', rtype = ''CNAME'', rcontent = Some ''b''\<rparr>,
      \<lparr>rname = ''b'', rtype = ''CNAME'', rcontent = Some ''a''\<rparr>]
     [(''b'', [''a'']), (''a'', [''b''])] = []"
  by code_simp

text \<open>
  Claim C2, amended. For two CNAME records, each with the other's name as content, whose
  names are not empty after normalization and carry no surrounding whitespace (so that
  \<^verbatim>\<open>find_root_records\<close> sees the same name as \<^verbatim>\<open>build_hierarchy\<close>), rendering
  terminates, the children map holds exactly the two edges of the cycle, and the output is
  the title and the blank line: each of the two names is written zero times.
\<close>

theorem cycle_renders_nothing:
  assumes "normalize a \<noteq> []" "normalize b \<noteq> []"
    and "root_name a = normalize a" "root_name b = normalize b"
  shows "generate_mindmap
     [\<lparr>rname = a, rtype = ''CNAME'', rcontent = Some b\<rparr>,
      \<lparr>rname = b, rtype = ''CNAME'', rcontent = Some a\<rparr>]
     = [''# DNS Record Hierarchy'', []]
   \<and> edges (fst (build_hierarchy
     [\<lparr>rname = a, rtype = ''CNAME'', rcontent = Some b\<rparr>,
      \<lparr>rname = b, rtype = ''CNAME'', rcontent = Some a\<rparr>]))
     = {(normalize b, normalize a), (normalize a, normalize b)}
   \<and> write_hierarchy_write_children_dom
        (Inl (x, fst (build_hierarchy
                [\<lparr>rname = a, rtype = ''CNAME'', rcontent = Some b\<rparr>,
                 \<lparr>rname = b, rtype = ''CNAME'', rcontent = Some a\<rparr>]), level, st))"
proof -
  let ?A = "\<lparr>rname = a, rtype = ''CNAME'', rcontent = Some b\<rparr>"
  let ?B = "\<lparr>rname = b, rtype = ''CNAME'', rcontent = Some a\<rparr>"
  let ?recs = "[?A, ?B]"
  let ?cm = "fst (build_hierarchy ?recs)"
  let ?rr = "reroot ?recs ?cm"
  let ?K = "(\<lambda>r. normalize (rname r)) ` set ?recs"
  have K: "?K = {normalize a, normalize b}" by simp
  have eA: "edge_of {normalize a, normalize b} ?A = Some (normalize b, normalize a)"
    using assms(2) by (simp add: edge_of_def Let_def get_content_def)
  have eB: "edge_of {normalize a, normalize b} ?B = Some (normalize a, normalize b)"
    using assms(1) by (simp add: edge_of_def Let_def get_content_def)
  have "edges ?cm = set_option (edge_of ?K ?A) \<union> set_option (edge_of ?K ?B)"
    unfolding edges_build_hierarchy by simp
  then have e: "edges ?cm = {(normalize b, normalize a), (normalize a, normalize b)}"
    unfolding K eA eB by auto
  have "all_children ?cm = snd ` edges ?cm"
    by (rule all_children_edges[OF distinct_keys_build_hierarchy])
  then have ac: "all_children ?cm = {normalize a, normalize b}"
    unfolding e by auto
  have na: "\<not> rerootable ?cm ?A"
    unfolding rerootable_def is_root_iff ac by simp
  have nb: "\<not> rerootable ?cm ?B"
    unfolding rerootable_def is_root_iff ac by simp
  have none: "{r \<in> set ?recs. rerootable ?cm r} = {}"
    using na nb by auto
  have k: "keys (fst ?rr) = {}" unfolding keys_reroot none by simp
  have "(\<lambda>r. root_name (rname r)) ` set ?recs = {normalize a, normalize b}"
    using assms(3,4) by simp
  then have f: "set (find_root_records ?recs ?cm) = {}"
    unfolding find_root_records_set ac by blast
  have "set (final_roots ?recs ?cm ?rr) = {}"
    unfolding final_roots_set f k by simp
  then have "final_roots ?recs ?cm ?rr = []" by simp
  then have g: "generate_mindmap ?recs = [''# DNS Record Hierarchy'', []]"
    unfolding generate_mindmap_blocks by simp
  have d: "write_hierarchy_write_children_dom (Inl (x, ?cm, level, st))"
    using write_hierarchy_total by blast
  show ?thesis using g e d by blast
qed

theorem cycle_renders_nothing_witness:
  "normalize ''A.example.com'' \<noteq> [] \<and> normalize ''b.example.com.'' \<noteq> []
   \<and> root_name ''A.example.com'' = normalize ''A.example.com''
   \<and> root_name ''b.example.com.'' = normalize ''b.example.com.''
   \<and> generate_mindmap
     [\<lparr>rname = ''A.example.com'', rtype = ''CNAME'', rcontent = Some ''b.example.com.''\<rparr>,
      \<lparr>rname = ''b.example.com.'', rtype = ''CNAME'', rcontent = Some ''A.example.com''\<rparr>]
     = [''# DNS Record Hierarchy'', []]"
proof -
  have h1: "normalize ''A.example.com'' \<noteq> []" by code_simp
  have h2: "normalize ''b.example.com.'' \<noteq> []" by code_simp
  have h3: "root_name ''A.example.com'' = normalize ''A.example.com''" by code_simp
  have h4: "root_name ''b.example.com.'' = normalize ''b.example.com.''" by code_simp
  have g: "generate_mindmap
     [\<lparr>rname = ''A.example.com'', rtype = ''CNAME'', rcontent = Some ''b.example.com.''\<rparr>,
      \<lparr>rname = ''b.example.com.'', rtype = ''CNAME'', rcontent = Some ''A.example.com''\<rparr>]
     = [''# DNS Record Hierarchy'', []]"
    by (rule cycle_renders_nothing[OF h1 h2 h3 h4, of "[]" 0 "([], {})", THEN conjunct1])
  show ?thesis by (intro conjI h1 h2 h3 h4 g)
qed

subsection \<open>Normalization\<close>

text \<open>
  The claim C4 as it is stated fails. \<^verbatim>\<open>rstrip('.')\<close> removes every trailing dot, not
  one: \<^verbatim>\<open>a..\<close> becomes \<^verbatim>\<open>a\<close>, where stripping a single dot gives \<^verbatim>\<open>a.\<close>. And
  \<^verbatim>\<open>find_root_records\<close> does not strip whitespace: for the name \<^verbatim>\<open> www\<close> it sees
  \<^verbatim>\<open> www\<close> where \<^verbatim>\<open>build_hierarchy\<close> sees \<^verbatim>\<open>www\<close>, so the child \<^verbatim>\<open>www\<close> of
  \<^verbatim>\<open>example.com\<close> is also written as a root of its own.
\<close>

theorem normalization_counterexample:
  "normalize ''a..'' = ''a'' \<and> spec_normalize ''a..'' = ''a.''
   \<and> normalize '' www'' = ''www'' \<and> root_name '' www'' = '' www''
   \<and> generate_mindmap
        [\<lparr>rname = '' www'', rtype = ''CNAME'', rcontent = Some ''example.com''\<rparr>,
         \<lparr>rname = ''example.com'', rtype = ''A'', rcontent = Some ''1.2.3.4''\<rparr>]
      = [''# DNS Record Hierarchy'', [], line 0 '' www'',
         line 0 ''1.2.3.4'', line 1 ''example.com'', line 2 ''www'']"
  by code_simp

text \<open>
  Claim C4, amended. Normalization is lowercase, then strip of leading and trailing
  whitespace, then removal of every trailing dot, so a normalized string never ends in a dot.
  Strings that differ only by case have the same normal form, and so have a string that does
  not end in whitespace and the same string followed by any number of dots.
  \<^verbatim>\<open>build_hierarchy\<close> and the re-rooting loop read a record only through its normalized
  name, its type and its normalized content: two record lists that agree on these, record by
  record, give the same children map, the same keys of the record map and the same re-rooting
  result. \<^verbatim>\<open>find_root_records\<close> lowercases and removes every trailing dot, so it too
  identifies names that differ by case or by trailing dots, but it does not strip whitespace:
  on a name without surrounding whitespace it computes the normal form, and for record lists
  whose names carry no surrounding whitespace the root list and the whole output depend on a
  record only through its normalized name, its type and its normalized content.
\<close>

theorem normalization_applied:
  "normalize s = rstrip_dots (strip (lower s))
   \<and> (normalize s = [] \<or> last (normalize s) \<noteq> CHR ''.'')
   \<and> (lower s = lower t \<longrightarrow> normalize s = normalize t)
   \<and> (s = [] \<or> \<not> is_space (last s) \<longrightarrow> normalize (s @ replicate k CHR ''.'') = normalize s)
   \<and> (map rkey recs = map rkey recs' \<longrightarrow>
        fst (build_hierarchy recs) = fst (build_hierarchy recs')
        \<and> keys (snd (build_hierarchy recs)) = keys (snd (build_hierarchy recs'))
        \<and> reroot recs cm = reroot recs' cm)
   \<and> root_name s = rstrip_dots (lower s)
   \<and> (lower s = lower t \<longrightarrow> root_name s = root_name t)
   \<and> root_name (s @ replicate k CHR ''.'') = root_name s
   \<and> (unpadded s \<longrightarrow> root_name s = normalize s)
   \<and> ((\<forall>r\<in>set recs \<union> set recs'. unpadded (rname r)) \<and> map rkey recs = map rkey recs' \<longrightarrow>
        find_root_records recs cm = find_root_records recs' cm
        \<and> generate_mindmap recs = generate_mindmap recs')"
proof (intro conjI impI)
  show "normalize s = rstrip_dots (strip (lower s))" by (rule normalize_def)
  show "normalize s = [] \<or> last (normalize s) \<noteq> CHR ''.''" by (rule normalize_no_trailing_dot)
  show "normalize s = normalize t" if "lower s = lower t"
    using that by (simp add: normalize_def)
  show "normalize (s @ replicate k CHR ''.'') = normalize s"
    if "s = [] \<or> \<not> is_space (last s)"
    using that by (rule normalize_append_dots)
  show "root_name s = rstrip_dots (lower s)" by (rule root_name_def)
  show "root_name s = root_name t" if "lower s = lower t"
    using that by (simp add: root_name_def)
  show "root_name (s @ replicate k CHR ''.'') = root_name s" by (rule root_name_append_dots)
  show "root_name s = normalize s" if "unpadded s"
    using that by (rule root_name_unpadded)
  {
    assume m: "map rkey recs = map rkey recs'"
    have "map (\<lambda>r. normalize (rname r)) recs = map (\<lambda>r. normalize (rname r)) recs'"
      using arg_cong[OF m, of "map fst"] by (simp add: rkey_def comp_def)
    then have "(\<lambda>r. normalize (rname r)) ` set recs = (\<lambda>r. normalize (rname r)) ` set recs'"
      by (metis set_map)
    then have k: "keys (build_record_map recs) = keys (build_record_map recs')"
      by (simp add: keys_build_record_map)
    then show "keys (snd (build_hierarchy recs)) = keys (snd (build_hierarchy recs'))"
      by (simp add: build_hierarchy_def Let_def)
    show "fst (build_hierarchy recs) = fst (build_hierarchy recs')"
      unfolding build_hierarchy_def Let_def fst_conv using m k by (rule fold_build_step_rkey)
    show "reroot recs cm = reroot recs' cm"
      unfolding reroot_def using m by (rule fold_reroot_step_rkey)
  }
  {
    assume a: "(\<forall>r\<in>set recs \<union> set recs'. unpadded (rname r)) \<and> map rkey recs = map rkey recs'"
    show "find_root_records recs cm = find_root_records recs' cm"
      using a by (intro find_root_records_rkey) simp_all
    show "generate_mindmap recs = generate_mindmap recs'"
      using a by (intro generate_mindmap_rkey) simp_all
  }
qed

theorem normalization_applied_witness:
  "lower ''Example.COM'' = lower ''example.com''
   \<and> normalize ''Example.COM'' = normalize ''example.com''
   \<and> root_name ''Example.COM'' = root_name ''example.com''
   \<and> \<not> is_space (last ''Example.COM'')
   \<and> normalize (''Example.COM'' @ replicate 2 CHR ''.'') = normalize ''Example.COM''
   \<and> unpadded ''Example.COM.''
   \<and> root_name ''Example.COM.'' = normalize ''Example.COM.''
   \<and> map rkey [\<lparr>rname = ''WWW.Example.com.'', rtype = ''CNAME'', rcontent = Some '' Example.COM..''\<rparr>,
                \<lparr>rname = ''Example.com.'', rtype = ''A'', rcontent = Some ''1.2.3.4''\<rparr>]
       = map rkey [\<lparr>rname = ''www.example.com'', rtype = ''CNAME'', rcontent = Some ''example.com''\<rparr>,
                   \<lparr>rname = ''example.com'', rtype = ''A'', rcontent = Some ''1.2.3.4''\<rparr>]
   \<and> fst (build_hierarchy
          [\<lparr>rname = ''WWW.Example.com.'', rtype = ''CNAME'', rcontent = Some '' Example.COM..''\<rparr>,
           \<lparr>rname = ''Example.com.'', rtype = ''A'', rcontent = Some ''1.2.3.4''\<rparr>])
       = fst (build_hierarchy
          [\<lparr>rname = ''www.example.com'', rtype = ''CNAME'', rcontent = Some ''example.com''\<rparr>,
           \<lparr>rname = ''example.com'', rtype = ''A'', rcontent = Some ''1.2.3.4''\<rparr>])
   \<and> generate_mindmap
          [\<lparr>rname = ''WWW.Example.com.'', rtype = ''CNAME'', rcontent = Some '' Example.COM..''\<rparr>,
           \<lparr>rname = ''Example.com.'', rtype = ''A'', rcontent = Some ''1.2.3.4''\<rparr>]
       = generate_mindmap
          [\<lparr>rname = ''www.example.com'', rtype = ''CNAME'', rcontent = Some ''example.com''\<rparr>,
           \<lparr>rname = ''example.com'', rtype = ''A'', rcontent = Some ''1.2.3.4''\<rparr>]"
proof -
  let ?s = "''Example.COM''"
  let ?t = "''example.com''"
  let ?recs = "[\<lparr>rname = ''WWW.Example.com.'', rtype = ''CNAME'', rcontent = Some '' Example.COM..''\<rparr>,
                \<lparr>rname = ''Example.com.'', rtype = ''A'', rcontent = Some ''1.2.3.4''\<rparr>]"
  let ?recs' = "[\<lparr>rname = ''www.example.com'', rtype = ''CNAME'', rcontent = Some ''example.com''\<rparr>,
                   \<lparr>rname = ''example.com'', rtype = ''A'', rcontent = Some ''1.2.3.4''\<rparr>]"
  note t = normalization_applied[of ?s ?t 2 ?recs ?recs' "[]"]
  note u = normalization_applied[of "''Example.COM.''" ?t 2 ?recs ?recs' "[]"]
  have h1: "lower ?s = lower ?t" by code_simp
  have h2: "\<not> is_space (last ?s)" by code_simp
  have h3: "map rkey ?recs = map rkey ?recs'" by code_simp
  have h4: "unpadded ''Example.COM.''" by code_simp
  have h5: "\<forall>r\<in>set ?recs \<union> set ?recs'. unpadded (rname r)" by code_simp
  have c1: "normalize ?s = normalize ?t"
    by (rule t[THEN conjunct2, THEN conjunct2, THEN conjunct1, THEN mp, OF h1])
  have c2: "normalize (?s @ replicate 2 CHR ''.'') = normalize ?s"
    by (rule t[THEN conjunct2, THEN conjunct2, THEN conjunct2, THEN conjunct1, THEN mp,
          OF disjI2[OF h2]])
  have c3: "fst (build_hierarchy ?recs) = fst (build_hierarchy ?recs')"
    by (rule t[THEN conjunct2, THEN conjunct2, THEN conjunct2, THEN conjunct2, THEN conjunct1,
          THEN mp, OF h3, THEN conjunct1])
  have c4: "root_name ?s = root_name ?t"
    by (rule t[THEN conjunct2, THEN conjunct2, THEN conjunct2, THEN conjunct2, THEN conjunct2,
          THEN conjunct2, THEN conjunct1, THEN mp, OF h1])
  have c5: "root_name ''Example.COM.'' = normalize ''Example.COM.''"
    by (rule u[THEN conjunct2, THEN conjunct2, THEN conjunct2, THEN conjunct2, THEN conjunct2,
          THEN conjunct2, THEN conjunct2, THEN conjunct2, THEN conjunct1, THEN mp, OF h4])
  have c6: "generate_mindmap ?recs = generate_mindmap ?recs'"
    by (rule t[THEN conjunct2, THEN conjunct2, THEN conjunct2, THEN conjunct2, THEN conjunct2,
          THEN conjunct2, THEN conjunct2, THEN conjunct2, THEN conjunct2, THEN mp,
          OF conjI[OF h5 h3], THEN conjunct2])
  show ?thesis by (intro conjI h1 c1 c4 h2 c2 h4 c5 h3 c3 c6)
qed

subsection \<open>Determinism and order of the output\<close>



end
